theory Spec2Isabelle
  imports Main "HOL-Library.Word"
begin

unbundle bit_operations_syntax

section \<open>The notifier of taskflow/core/notifier.hpp\<close>

text \<open>
  The notifier packs three fields into one atomic 64-bit word: the head of the stack of
  parked waiters in bits [0,16), the number of announced waiters in bits [16,32) and a
  modification counter (the epoch) in bits [32,64). Waiters live in a vector that is
  never resized, so a \<open>Waiter *\<close> is modelled by the index of the slot it points to
  and \<open>nullptr\<close> by \<open>None\<close>.

  Every operation is modelled as it runs when no other thread writes the notifier while
  it executes: a load reads the current word, and \<open>compare_exchange_weak\<close> succeeds
  exactly when the word still equals the expected value (spurious failures only repeat
  the same iteration). A call that does not return is the value \<open>None\<close>. Assertions
  are modelled as enabled; an access outside the vector, undefined in the source, is
  the error \<open>InvalidWaiter\<close>.
\<close>

subsection \<open>Data\<close>

type_synonym u64 = "64 word"

text \<open>The anonymous enum of \<open>Waiter\<close>: the values 0, 1 and 2 that its state field takes.\<close>

datatype signal = kNotSignaled | kWaiting | kSignaled

text \<open>
  \<open>struct Waiter\<close> and \<open>class Notifier\<close>. A name cannot end in an underscore here, so
  the members \<open>next_\<close>, \<open>epoch_\<close> and \<open>state_\<close> of the waiter are \<open>w_next\<close>,
  \<open>w_epoch\<close> and \<open>w_state\<close>, and the members \<open>waiters_\<close> and \<open>state_\<close> of the
  notifier are \<open>n_waiters\<close> and \<open>n_state\<close>. The mutex and the condition variable
  carry no data; a call of \<open>cv_.notify_one()\<close> is recorded in the log of \<open>Notify\<close>.
\<close>

record Waiter =
  w_next :: "nat option"
  w_epoch :: u64
  w_state :: signal

record Notifier =
  n_waiters :: "Waiter list"
  n_state :: u64

datatype error = AssertionFailed | InvalidWaiter

text \<open>
  How a call of \<open>CommitWait\<close> ends: it returns, or the caller is suspended in
  \<open>cv_.wait\<close> with the notifier left as given.
\<close>

datatype 'a outcome = Returned 'a | Parked 'a

text \<open>
  One entry per iteration of the signalling loop of \<open>Notify\<close>: the slot whose
  state was set to \<open>kSignaled\<close> and the value it had before. The loop calls
  \<open>cv_.notify_one()\<close> on that slot exactly when the previous value is \<open>kWaiting\<close>.
\<close>

type_synonym log = "(nat \<times> signal) list"

subsection \<open>Layout constants\<close>

definition kStackBits :: nat where
  "kStackBits = 16"

definition kStackMask :: u64 where
  "kStackMask = push_bit kStackBits 1 - 1"

definition kWaiterBits :: nat where
  "kWaiterBits = 16"

definition kWaiterShift :: nat where
  "kWaiterShift = 16"

definition kWaiterMask :: u64 where
  "kWaiterMask = push_bit kWaiterShift (push_bit kWaiterBits 1 - 1)"

definition kEpochBits :: nat where
  "kEpochBits = 32"

definition kEpochShift :: nat where
  "kEpochShift = 32"

definition kEpochMask :: u64 where
  "kEpochMask = push_bit kEpochShift (push_bit kEpochBits 1 - 1)"

definition kWaiterInc :: u64 where
  "kWaiterInc = push_bit kWaiterBits 1"

definition kEpochInc :: u64 where
  "kEpochInc = push_bit kEpochShift 1"

subsection \<open>Construction, destruction, slot lookup\<close>

text \<open>
  \<open>Notifier::Notifier(size_t N)\<close>: the vector is value-initialised, then the capacity
  is asserted to be below \<open>(1 << kWaiterBits) - 1\<close> and the state word is set.
\<close>

definition Notifier_ctor :: "nat \<Rightarrow> error + Notifier" where
  "Notifier_ctor N =
     (let ws = replicate N \<lparr>w_next = None, w_epoch = 0, w_state = kNotSignaled\<rparr> in
      if length ws < 2 ^ kWaiterBits - 1
      then Inr \<lparr>n_waiters = ws,
                n_state = kStackMask OR (kEpochMask - kEpochInc * of_nat (length ws) * 2)\<rparr>
      else Inl AssertionFailed)"

text \<open>\<open>Notifier::~Notifier()\<close>: the assertion that no waiter is left.\<close>

definition Notifier_dtor :: "Notifier \<Rightarrow> error + unit" where
  "Notifier_dtor n =
     (if n_state n AND (kStackMask OR kWaiterMask) = kStackMask then Inr ()
      else Inl AssertionFailed)"

text \<open>\<open>Notifier::GetWaiter\<close>: the pointer to slot \<open>idx\<close>, or \<open>nullptr\<close>.\<close>

definition GetWaiter :: "Notifier \<Rightarrow> nat \<Rightarrow> nat option" where
  "GetWaiter n idx = (if idx < length (n_waiters n) then Some idx else None)"

subsection \<open>PrepareWait, CommitWait, CancelWait\<close>

text \<open>\<open>Notifier::PrepareWait\<close>: \<open>fetch_add\<close> returns the word before the addition.\<close>

definition PrepareWait :: "nat \<Rightarrow> Notifier \<Rightarrow> error + Notifier" where
  "PrepareWait w n =
     (if w < length (n_waiters n)
      then Inr (n\<lparr>n_waiters := (n_waiters n)[w := (n_waiters n ! w)\<lparr>w_epoch := n_state n\<rparr>],
                  n_state := n_state n + kWaiterInc\<rparr>)
      else Inl InvalidWaiter)"

text \<open>
  The local \<open>epoch\<close> of \<open>CommitWait\<close> and \<open>CancelWait\<close>, computed from the snapshot
  that \<open>PrepareWait\<close> stored in the waiter, by the same expression in both.
\<close>

definition expected_epoch :: "u64 \<Rightarrow> u64" where
  "expected_epoch e =
     (e AND kEpochMask) + push_bit kEpochShift (drop_bit kWaiterShift (e AND kWaiterMask))"

text \<open>
  The block after the loop of \<open>CommitWait\<close>: one evaluation of the \<open>while\<close> test under
  the waiter's mutex. Unless the slot is signalled, the caller stores \<open>kWaiting\<close> and is
  suspended in \<open>cv_.wait\<close>; when it is woken the test is evaluated again.
\<close>

definition park :: "nat \<Rightarrow> Notifier \<Rightarrow> Notifier outcome" where
  "park w n =
     (if w_state (n_waiters n ! w) = kSignaled then Returned n
      else Parked (n\<lparr>n_waiters := (n_waiters n)[w := (n_waiters n ! w)\<lparr>w_state := kWaiting\<rparr>]\<rparr>))"

text \<open>
  The \<open>for (;;)\<close> loop of \<open>CommitWait\<close>, with the locals \<open>epoch\<close> and \<open>state\<close> as
  arguments. The store to the waiter's link precedes the compare-and-swap and is kept when the
  swap fails.
\<close>

partial_function (option) CommitWait_loop ::
  "nat \<Rightarrow> u64 \<Rightarrow> u64 \<Rightarrow> Notifier \<Rightarrow> (error + Notifier outcome) option" where
  "CommitWait_loop w epoch state n =
     (if sint ((state AND kEpochMask) - epoch) < 0 then CommitWait_loop w epoch (n_state n) n
      else if 0 < sint ((state AND kEpochMask) - epoch) then Some (Inr (Returned n))
      else if state AND kWaiterMask = 0 then Some (Inl AssertionFailed)
      else if state AND kStackMask = kStackMask
      then (if n_state n = state
            then Some (Inr (park w
                   (n\<lparr>n_waiters := (n_waiters n)[w := (n_waiters n ! w)\<lparr>w_next := None\<rparr>],
                      n_state := ((state - kWaiterInc + kEpochInc) AND NOT kStackMask) OR of_nat w\<rparr>)))
            else CommitWait_loop w epoch (n_state n)
                   (n\<lparr>n_waiters := (n_waiters n)[w := (n_waiters n ! w)\<lparr>w_next := None\<rparr>]\<rparr>))
      else if unat (state AND kStackMask) < length (n_waiters n)
      then (if n_state n = state
            then Some (Inr (park w
                   (n\<lparr>n_waiters := (n_waiters n)[w := (n_waiters n ! w)
                                       \<lparr>w_next := Some (unat (state AND kStackMask))\<rparr>],
                      n_state := ((state - kWaiterInc + kEpochInc) AND NOT kStackMask) OR of_nat w\<rparr>)))
            else CommitWait_loop w epoch (n_state n)
                   (n\<lparr>n_waiters := (n_waiters n)[w := (n_waiters n ! w)
                                       \<lparr>w_next := Some (unat (state AND kStackMask))\<rparr>]\<rparr>))
      else Some (Inl InvalidWaiter))"

declare CommitWait_loop.simps [code]

definition CommitWait :: "nat \<Rightarrow> Notifier \<Rightarrow> (error + Notifier outcome) option" where
  "CommitWait w n =
     (if w < length (n_waiters n)
      then CommitWait_loop w (expected_epoch (w_epoch (n_waiters n ! w))) (n_state n)
             (n\<lparr>n_waiters := (n_waiters n)[w := (n_waiters n ! w)\<lparr>w_state := kNotSignaled\<rparr>]\<rparr>)
      else Some (Inl InvalidWaiter))"

text \<open>The \<open>for (;;)\<close> loop of \<open>CancelWait\<close>.\<close>

partial_function (option) CancelWait_loop ::
  "u64 \<Rightarrow> u64 \<Rightarrow> Notifier \<Rightarrow> (error + Notifier) option" where
  "CancelWait_loop epoch state n =
     (if sint ((state AND kEpochMask) - epoch) < 0 then CancelWait_loop epoch (n_state n) n
      else if 0 < sint ((state AND kEpochMask) - epoch) then Some (Inr n)
      else if state AND kWaiterMask = 0 then Some (Inl AssertionFailed)
      else if n_state n = state
      then Some (Inr (n\<lparr>n_state := state - kWaiterInc + kEpochInc\<rparr>))
      else CancelWait_loop epoch (n_state n) n)"

declare CancelWait_loop.simps [code]

definition CancelWait :: "nat \<Rightarrow> Notifier \<Rightarrow> (error + Notifier) option" where
  "CancelWait w n =
     (if w < length (n_waiters n)
      then CancelWait_loop (expected_epoch (w_epoch (n_waiters n ! w))) (n_state n) n
      else Some (Inl InvalidWaiter))"

subsection \<open>Notify and NotifyN\<close>

text \<open>
  One iteration of the loop at the end of \<open>Notify\<close>,
  \<open>for (auto iter = w; iter != nullptr; iter = loop_next)\<close>, at the node \<open>i\<close>: the
  successor is read from \<open>w\<close>, the first node, as the source does; then the node is set
  to \<open>kSignaled\<close> under its mutex and its previous state is logged.
\<close>

definition signal_body :: "nat \<Rightarrow> nat \<Rightarrow> Notifier \<Rightarrow> log \<Rightarrow> nat option \<times> Notifier \<times> log" where
  "signal_body w i n lg =
     (w_next (n_waiters n ! w),
      n\<lparr>n_waiters := (n_waiters n)[i := (n_waiters n ! i)\<lparr>w_state := kSignaled\<rparr>]\<rparr>,
      lg @ [(i, w_state (n_waiters n ! i))])"

text \<open>The loop itself, with \<open>iter\<close> as an argument.\<close>

partial_function (option) signal_loop ::
  "nat \<Rightarrow> nat option \<Rightarrow> Notifier \<Rightarrow> log \<Rightarrow> (error + Notifier \<times> log) option" where
  "signal_loop w iter n lg =
     (case iter of
        None \<Rightarrow> Some (Inr (n, lg))
      | Some i \<Rightarrow>
          if i < length (n_waiters n)
          then (case signal_body w i n lg of (iter', n', lg') \<Rightarrow> signal_loop w iter' n' lg')
          else Some (Inl InvalidWaiter))"

declare signal_loop.simps [code]

text \<open>
  The loop variables after at most \<open>k\<close> iterations of that loop: the view of a thread
  that watches the loop run.
\<close>

fun signal_run :: "nat \<Rightarrow> nat \<Rightarrow> nat option \<times> Notifier \<times> log \<Rightarrow> nat option \<times> Notifier \<times> log" where
  "signal_run 0 w st = st"
| "signal_run (Suc k) w (None, n, lg) = (None, n, lg)"
| "signal_run (Suc k) w (Some i, n, lg) = signal_run k w (signal_body w i n lg)"

text \<open>The candidate \<open>new_state\<close> that one iteration of \<open>Notify\<close> computes from \<open>state\<close>.\<close>

definition Notify_new_state :: "bool \<Rightarrow> u64 \<Rightarrow> Notifier \<Rightarrow> error + u64" where
  "Notify_new_state all state n =
     (let waiters = drop_bit kWaiterShift (state AND kWaiterMask) in
      if all then Inr ((state AND kEpochMask) + kEpochInc * waiters + kStackMask)
      else if 0 < waiters then Inr (state + kEpochInc - kWaiterInc)
      else if unat (state AND kStackMask) < length (n_waiters n)
      then Inr ((state AND kEpochMask) +
                (case w_next (n_waiters n ! unat (state AND kStackMask)) of
                   None \<Rightarrow> kStackMask
                 | Some j \<Rightarrow> of_nat j))
      else Inl InvalidWaiter)"

text \<open>What \<open>Notify\<close> does once the compare-and-swap from \<open>state\<close> has succeeded.\<close>

definition Notify_signal :: "bool \<Rightarrow> u64 \<Rightarrow> Notifier \<Rightarrow> (error + Notifier \<times> log) option" where
  "Notify_signal all state n =
     (if \<not> all \<and> 0 < drop_bit kWaiterShift (state AND kWaiterMask) then Some (Inr (n, []))
      else if state AND kStackMask = kStackMask then Some (Inr (n, []))
      else if unat (state AND kStackMask) < length (n_waiters n)
      then signal_loop (unat (state AND kStackMask)) (Some (unat (state AND kStackMask)))
             (if all then n
              else n\<lparr>n_waiters := (n_waiters n)[unat (state AND kStackMask) :=
                      (n_waiters n ! unat (state AND kStackMask))\<lparr>w_next := None\<rparr>]\<rparr>)
             []
      else Some (Inl InvalidWaiter))"

text \<open>The \<open>for (;;)\<close> loop of \<open>Notify\<close>, with the local \<open>state\<close> as an argument.\<close>

partial_function (option) Notify_loop ::
  "bool \<Rightarrow> u64 \<Rightarrow> Notifier \<Rightarrow> (error + Notifier \<times> log) option" where
  "Notify_loop all state n =
     (if state AND kStackMask = kStackMask \<and> state AND kWaiterMask = 0 then Some (Inr (n, []))
      else case Notify_new_state all state n of
             Inl e \<Rightarrow> Some (Inl e)
           | Inr new_state \<Rightarrow>
               if n_state n = state then Notify_signal all state (n\<lparr>n_state := new_state\<rparr>)
               else Notify_loop all (n_state n) n)"

declare Notify_loop.simps [code]

definition Notify :: "bool \<Rightarrow> Notifier \<Rightarrow> (error + Notifier \<times> log) option" where
  "Notify all n = Notify_loop all (n_state n) n"

text \<open>
  The \<open>for\<close> loop of \<open>NotifyN\<close>, with the counter \<open>i\<close> as an argument; the logs of the
  calls are concatenated.
\<close>

function NotifyN_loop ::
  "nat \<Rightarrow> nat \<Rightarrow> Notifier \<Rightarrow> log \<Rightarrow> (error + Notifier \<times> log) option" where
  "NotifyN_loop i k n lg =
     (if i < k
      then (case Notify False n of
              None \<Rightarrow> None
            | Some (Inl e) \<Rightarrow> Some (Inl e)
            | Some (Inr (n', l)) \<Rightarrow> NotifyN_loop (Suc i) k n' (lg @ l))
      else Some (Inr (n, lg)))"
  by pat_completeness auto
termination
  by (relation "measure (\<lambda>(i, k, n, lg). k - i)") auto

declare NotifyN_loop.simps [simp del]

definition NotifyN :: "nat \<Rightarrow> Notifier \<Rightarrow> (error + Notifier \<times> log) option" where
  "NotifyN k n =
     (if length (n_waiters n) \<le> k then Notify True n else NotifyN_loop 0 k n [])"

subsection \<open>The park stack and the order of epochs\<close>

text \<open>The head of the park stack that a state word encodes: a slot index, or empty.\<close>

definition stack_head :: "u64 \<Rightarrow> nat option" where
  "stack_head s = (if s AND kStackMask = kStackMask then None else Some (unat (s AND kStackMask)))"

text \<open>
  \<open>stack_chain ws h xs\<close>: following the links of the slots \<open>ws\<close> from the head \<open>h\<close>
  visits exactly the slots \<open>xs\<close>, top first, and ends at \<open>nullptr\<close>.
\<close>

fun stack_chain :: "Waiter list \<Rightarrow> nat option \<Rightarrow> nat list \<Rightarrow> bool" where
  "stack_chain ws None xs = (xs = [])"
| "stack_chain ws (Some i) [] = False"
| "stack_chain ws (Some i) (x # xs) =
     (i = x \<and> x < length ws \<and> stack_chain ws (w_next (ws ! x)) xs)"

text \<open>The number of announced waiters that a state word encodes.\<close>

definition prepare_count :: "u64 \<Rightarrow> nat" where
  "prepare_count s = unat (drop_bit kWaiterShift (s AND kWaiterMask))"

text \<open>
  The invariant of the state word: the stack head is the sentinel or a slot of the
  vector, and no more waiters are announced than there are slots.
\<close>

definition state_invariant :: "Notifier \<Rightarrow> bool" where
  "state_invariant n =
     ((n_state n AND kStackMask = kStackMask \<or>
       unat (n_state n AND kStackMask) < length (n_waiters n)) \<and>
      prepare_count (n_state n) \<le> length (n_waiters n))"

text \<open>
  Every link is \<open>nullptr\<close> or points into the vector: the source only ever stores
  \<open>nullptr\<close> or the address of a slot in a link.
\<close>

definition links_in_range :: "Notifier \<Rightarrow> bool" where
  "links_in_range n =
     list_all (\<lambda>x. case w_next x of None \<Rightarrow> True | Some j \<Rightarrow> j < length (n_waiters n))
       (n_waiters n)"

text \<open>
  The comparison of epochs that \<open>CommitWait\<close> and \<open>CancelWait\<close> use, the sign of the
  difference of the epoch fields read as \<open>int64_t\<close>: the epoch of \<open>new\<close> is after the
  epoch of \<open>old\<close>.
\<close>

definition epoch_after :: "u64 \<Rightarrow> u64 \<Rightarrow> bool" where
  "epoch_after new old = (0 < sint ((new AND kEpochMask) - (old AND kEpochMask)))"

subsection \<open>Sequences of calls\<close>

text \<open>
  The threads of the slots \<open>ws\<close>, one after the other, each call \<open>PrepareWait\<close> and then
  \<open>CommitWait\<close>, and each is suspended in \<open>CommitWait\<close>. The result is \<open>None\<close> when a
  call ends in any other way.
\<close>

fun park_all :: "nat list \<Rightarrow> Notifier \<Rightarrow> Notifier option" where
  "park_all [] n = Some n"
| "park_all (w # ws) n =
     (case PrepareWait w n of
        Inl e \<Rightarrow> None
      | Inr n1 \<Rightarrow>
          (case CommitWait w n1 of
             Some (Inr (Parked n2)) \<Rightarrow> park_all ws n2
           | _ \<Rightarrow> None))"

text \<open>\<open>k\<close> successive calls of \<open>Notify(false)\<close>; the logs of the calls are concatenated.\<close>

primrec Notify_false_times :: "nat \<Rightarrow> Notifier \<Rightarrow> (error + Notifier \<times> log) option" where
  "Notify_false_times 0 n = Some (Inr (n, []))"
| "Notify_false_times (Suc k) n =
     (case Notify False n of
        None \<Rightarrow> None
      | Some (Inl e) \<Rightarrow> Some (Inl e)
      | Some (Inr (n', l)) \<Rightarrow>
          (case Notify_false_times k n' of
             None \<Rightarrow> None
           | Some (Inl e) \<Rightarrow> Some (Inl e)
           | Some (Inr (n'', l')) \<Rightarrow> Some (Inr (n'', l @ l'))))"

text \<open>
  \<open>NotifyN\<close> as the specification words it: \<open>Notify(true)\<close> when \<open>k\<close> reaches the
  capacity, \<open>k\<close> successive calls of \<open>Notify(false)\<close> otherwise.
\<close>

definition NotifyN_spec :: "nat \<Rightarrow> Notifier \<Rightarrow> (error + Notifier \<times> log) option" where
  "NotifyN_spec k n =
     (if length (n_waiters n) \<le> k then Notify True n else Notify_false_times k n)"

subsection \<open>Example states\<close>

text \<open>
  States of a notifier of capacity 4 that the operations reach from construction, as
  the lemmas on the example states show below.
\<close>

definition fresh :: Waiter where
  "fresh = \<lparr>w_next = None, w_epoch = 0, w_state = kNotSignaled\<rparr>"

text \<open>After \<open>Notifier(4)\<close>.\<close>

definition idle4 :: Notifier where
  "idle4 = \<lparr>n_waiters = [fresh, fresh, fresh, fresh], n_state = 0xFFFFFFF70000FFFF\<rparr>"

text \<open>After \<open>idle4\<close> and \<open>PrepareWait\<close> on slot 0.\<close>

definition announced4 :: Notifier where
  "announced4 =
     \<lparr>n_waiters = [\<lparr>w_next = None, w_epoch = 0xFFFFFFF70000FFFF, w_state = kNotSignaled\<rparr>,
                   fresh, fresh, fresh],
      n_state = 0xFFFFFFF70001FFFF\<rparr>"

text \<open>After \<open>announced4\<close> and \<open>PrepareWait\<close> on slot 1, with slot 0 still announced.\<close>

definition announced4_twice :: Notifier where
  "announced4_twice =
     \<lparr>n_waiters = [\<lparr>w_next = None, w_epoch = 0xFFFFFFF70000FFFF, w_state = kNotSignaled\<rparr>,
                   \<lparr>w_next = None, w_epoch = 0xFFFFFFF70001FFFF, w_state = kNotSignaled\<rparr>,
                   fresh, fresh],
      n_state = 0xFFFFFFF70002FFFF\<rparr>"

text \<open>After \<open>announced4\<close> and \<open>Notify(false)\<close>.\<close>

definition resolved4 :: Notifier where
  "resolved4 =
     \<lparr>n_waiters = [\<lparr>w_next = None, w_epoch = 0xFFFFFFF70000FFFF, w_state = kNotSignaled\<rparr>,
                   fresh, fresh, fresh],
      n_state = 0xFFFFFFF80000FFFF\<rparr>"

text \<open>After \<open>Notifier(4)\<close>, with the thread of slot 0 parked.\<close>

definition parked4_1 :: Notifier where
  "parked4_1 =
     \<lparr>n_waiters = [\<lparr>w_next = None, w_epoch = 0xFFFFFFF70000FFFF, w_state = kWaiting\<rparr>,
                   fresh, fresh, fresh],
      n_state = 0xFFFFFFF800000000\<rparr>"

text \<open>After \<open>parked4_1\<close> and \<open>Notify(false)\<close>.\<close>

definition woken4_1 :: Notifier where
  "woken4_1 =
     \<lparr>n_waiters = [\<lparr>w_next = None, w_epoch = 0xFFFFFFF70000FFFF, w_state = kSignaled\<rparr>,
                   fresh, fresh, fresh],
      n_state = 0xFFFFFFF80000FFFF\<rparr>"

text \<open>After \<open>parked4_1\<close>, with the thread of slot 1 parked as well.\<close>

definition parked4_2 :: Notifier where
  "parked4_2 =
     \<lparr>n_waiters = [\<lparr>w_next = None, w_epoch = 0xFFFFFFF70000FFFF, w_state = kWaiting\<rparr>,
                   \<lparr>w_next = Some 0, w_epoch = 0xFFFFFFF800000000, w_state = kWaiting\<rparr>,
                   fresh, fresh],
      n_state = 0xFFFFFFF900000001\<rparr>"

text \<open>After \<open>parked4_2\<close>, with the thread of slot 2 parked as well.\<close>

definition parked4_3 :: Notifier where
  "parked4_3 =
     \<lparr>n_waiters = [\<lparr>w_next = None, w_epoch = 0xFFFFFFF70000FFFF, w_state = kWaiting\<rparr>,
                   \<lparr>w_next = Some 0, w_epoch = 0xFFFFFFF800000000, w_state = kWaiting\<rparr>,
                   \<lparr>w_next = Some 1, w_epoch = 0xFFFFFFF900000001, w_state = kWaiting\<rparr>,
                   fresh],
      n_state = 0xFFFFFFFA00000002\<rparr>"

text \<open>After \<open>parked4_3\<close> and \<open>PrepareWait\<close> on slot 3.\<close>

definition parked4_3_announced :: Notifier where
  "parked4_3_announced =
     \<lparr>n_waiters = [\<lparr>w_next = None, w_epoch = 0xFFFFFFF70000FFFF, w_state = kWaiting\<rparr>,
                   \<lparr>w_next = Some 0, w_epoch = 0xFFFFFFF800000000, w_state = kWaiting\<rparr>,
                   \<lparr>w_next = Some 1, w_epoch = 0xFFFFFFF900000001, w_state = kWaiting\<rparr>,
                   \<lparr>w_next = None, w_epoch = 0xFFFFFFFA00000002, w_state = kNotSignaled\<rparr>],
      n_state = 0xFFFFFFFA00010002\<rparr>"

section \<open>The fields of the state word\<close>

text \<open>
  The three masks select disjoint bit ranges, a word is the sum of its three fields, and
  each transition of the protocol acts on the fields separately.
\<close>

lemma kStackMask_mask: "kStackMask = mask 16"
  by (simp add: kStackMask_def kStackBits_def mask_eq_exp_minus_1)
lemma kWaiterMask_mask: "kWaiterMask = push_bit 16 (mask 16)"
  by (simp add: kWaiterMask_def kWaiterShift_def kWaiterBits_def mask_eq_exp_minus_1)
lemma kEpochMask_mask: "kEpochMask = push_bit 32 (mask 32)"
  by (simp add: kEpochMask_def kEpochShift_def kEpochBits_def mask_eq_exp_minus_1)

lemma stack_field: "(s::u64) AND kStackMask = take_bit 16 s"
  by (simp add: kStackMask_mask take_bit_eq_mask)
lemma epoch_field: "(s::u64) AND kEpochMask = push_bit 32 (drop_bit 32 s)"
  unfolding kEpochMask_mask by (rule bit_word_eqI) (auto simp add: bit_simps)
lemma waiter_field: "(s::u64) AND kWaiterMask = push_bit 16 (take_bit 16 (drop_bit 16 s))"
  unfolding kWaiterMask_mask by (rule bit_word_eqI) (auto simp add: bit_simps)

lemma bit_epoch_only: "(a::u64) AND kEpochMask = a \<Longrightarrow> bit a k \<Longrightarrow> 32 \<le> k"
  by (metis epoch_field bit_push_bit_iff)
lemma bit_waiter_only: "(b::u64) AND kWaiterMask = b \<Longrightarrow> bit b k \<Longrightarrow> 16 \<le> k \<and> k < 32"
  by (metis waiter_field bit_push_bit_iff bit_take_bit_iff add_less_cancel_left le_add_diff_inverse numeral_Bit0)
lemma bit_stack_only: "(c::u64) AND kStackMask = c \<Longrightarrow> bit c k \<Longrightarrow> k < 16"
  by (metis stack_field bit_take_bit_iff)


lemma bit_kEpochMask: "bit kEpochMask k \<longleftrightarrow> 32 \<le> k \<and> k < 64"
  unfolding kEpochMask_mask by (auto simp add: bit_simps)
lemma bit_kWaiterMask: "bit kWaiterMask k \<longleftrightarrow> 16 \<le> k \<and> k < 32"
  unfolding kWaiterMask_mask by (auto simp add: bit_simps)
lemma bit_kStackMask: "bit kStackMask k \<longleftrightarrow> k < 16"
  unfolding kStackMask_mask by (auto simp add: bit_simps)

lemma fields_sum_or:
  fixes a b c :: u64
  assumes a: "a AND kEpochMask = a" and b: "b AND kWaiterMask = b" and c: "c AND kStackMask = c"
  shows "a + b + c = a OR b OR c"
proof -
  have "a + b = a OR b"
    by (rule disjunctive_add_eq_or, rule bit_word_eqI)
       (use bit_epoch_only[OF a] bit_waiter_only[OF b] in \<open>fastforce simp: bit_simps\<close>)
  moreover have "(a OR b) + c = (a OR b) OR c"
    by (rule disjunctive_add_eq_or, rule bit_word_eqI)
       (use bit_epoch_only[OF a] bit_waiter_only[OF b] bit_stack_only[OF c] in \<open>fastforce simp: bit_simps\<close>)
  ultimately show ?thesis by (simp add: or.assoc)
qed

lemma fields_of_sum:
  fixes a b c :: u64
  assumes a: "a AND kEpochMask = a" and b: "b AND kWaiterMask = b" and c: "c AND kStackMask = c"
  shows "(a + b + c) AND kEpochMask = a"
    and "(a + b + c) AND kWaiterMask = b"
    and "(a + b + c) AND kStackMask = c"
proof -
  show "(a + b + c) AND kEpochMask = a"
    unfolding fields_sum_or[OF a b c]
    by (rule bit_word_eqI)
       (use bit_epoch_only[OF a] bit_waiter_only[OF b] bit_stack_only[OF c] in
         \<open>fastforce simp: bit_simps bit_kEpochMask\<close>)
  show "(a + b + c) AND kWaiterMask = b"
    unfolding fields_sum_or[OF a b c]
    by (rule bit_word_eqI)
       (use bit_epoch_only[OF a] bit_waiter_only[OF b] bit_stack_only[OF c] in
         \<open>fastforce simp: bit_simps bit_kWaiterMask\<close>)
  show "(a + b + c) AND kStackMask = c"
    unfolding fields_sum_or[OF a b c]
    by (rule bit_word_eqI)
       (use bit_epoch_only[OF a] bit_waiter_only[OF b] bit_stack_only[OF c] in
         \<open>fastforce simp: bit_simps bit_kStackMask\<close>)
qed

lemma fields_split: "(s::u64) = (s AND kEpochMask) + (s AND kWaiterMask) + (s AND kStackMask)"
proof -
  have "(s AND kEpochMask) + (s AND kWaiterMask) + (s AND kStackMask)
      = (s AND kEpochMask) OR (s AND kWaiterMask) OR (s AND kStackMask)"
    by (rule fields_sum_or) (simp_all add: and.assoc)
  also have "\<dots> = s"
    by (rule bit_word_eqI) (auto simp: bit_simps bit_kStackMask bit_kWaiterMask bit_kEpochMask)
  finally show ?thesis by simp
qed

lemma epoch_part_add: "((s::u64) AND kEpochMask) + kEpochInc * m = push_bit 32 (drop_bit 32 s + m)"
  by (simp add: epoch_field kEpochInc_def kEpochShift_def push_bit_eq_mult algebra_simps)

lemma push32_epoch_only: "push_bit 32 (x::u64) AND kEpochMask = push_bit 32 x"
  by (rule bit_word_eqI) (auto simp: bit_simps bit_kEpochMask)


lemma push16_waiter_only: "push_bit 16 (take_bit 16 (x::u64)) AND kWaiterMask = push_bit 16 (take_bit 16 x)"
  by (rule bit_word_eqI) (auto simp: bit_simps bit_kWaiterMask)

lemma take16_stack_only: "take_bit 16 (x::u64) AND kStackMask = take_bit 16 x"
  by (rule bit_word_eqI) (auto simp: bit_simps bit_kStackMask)

lemma take_bit_16_pred:
  fixes p :: u64
  assumes "take_bit 16 p = p" "p \<noteq> 0"
  shows "take_bit 16 (p - 1) = p - 1"
proof -
  have "unat p < 2 ^ 16"
    by (metis assms(1) unsigned_take_bit_eq take_bit_nat_less_exp)
  moreover have "unat (p - 1) = unat p - 1" using assms(2) by (rule unat_minus_one)
  ultimately have "unat (p - 1) < 2 ^ 16" by simp
  then have "p - 1 < 2 ^ 16" by (simp add: word_less_nat_alt)
  then show ?thesis by (simp add: take_bit_eq_mask less_mask_eq)
qed

lemma waiter_part_dec:
  assumes "(s::u64) AND kWaiterMask \<noteq> 0"
  shows "((s AND kWaiterMask) - kWaiterInc) AND kWaiterMask = (s AND kWaiterMask) - kWaiterInc"
proof -
  define p where "p = take_bit 16 (drop_bit 16 s)"
  have sp: "s AND kWaiterMask = push_bit 16 p" by (simp add: waiter_field p_def)
  with assms have "p \<noteq> 0" by auto
  moreover have "take_bit 16 p = p" by (simp add: p_def)
  ultimately have t: "take_bit 16 (p - 1) = p - 1" by (rule take_bit_16_pred[rotated])
  have "(s AND kWaiterMask) - kWaiterInc = push_bit 16 (p - 1)"
    by (simp add: sp kWaiterInc_def kWaiterBits_def push_bit_eq_mult algebra_simps)
  also have "\<dots> = push_bit 16 (take_bit 16 (p - 1))" by (simp add: t)
  finally show ?thesis by (simp add: push16_waiter_only)
qed

lemma commit_word_fields:
  fixes s :: u64
  assumes "s AND kWaiterMask \<noteq> 0"
  shows "(s - kWaiterInc + kEpochInc) AND kEpochMask = (s AND kEpochMask) + kEpochInc"
    and "(s - kWaiterInc + kEpochInc) AND kWaiterMask = (s AND kWaiterMask) - kWaiterInc"
    and "(s - kWaiterInc + kEpochInc) AND kStackMask = s AND kStackMask"
proof -
  let ?a = "(s AND kEpochMask) + kEpochInc" and ?b = "(s AND kWaiterMask) - kWaiterInc"
  let ?c = "s AND kStackMask"
  have "?a + ?b + ?c
      = ((s AND kEpochMask) + (s AND kWaiterMask) + (s AND kStackMask)) - kWaiterInc + kEpochInc"
    by simp
  also have "\<dots> = s - kWaiterInc + kEpochInc" by (simp only: fields_split[symmetric])
  finally have eq: "s - kWaiterInc + kEpochInc = ?a + ?b + ?c" by simp
  have a: "?a AND kEpochMask = ?a"
    using epoch_part_add[of s 1] by (simp add: push32_epoch_only)
  have b: "?b AND kWaiterMask = ?b" using assms by (rule waiter_part_dec)
  have c: "?c AND kStackMask = ?c" by (simp add: and.assoc)
  show "(s - kWaiterInc + kEpochInc) AND kEpochMask = ?a"
    unfolding eq by (rule fields_of_sum[OF a b c])
  show "(s - kWaiterInc + kEpochInc) AND kWaiterMask = ?b"
    unfolding eq by (rule fields_of_sum[OF a b c])
  show "(s - kWaiterInc + kEpochInc) AND kStackMask = ?c"
    unfolding eq by (rule fields_of_sum[OF a b c])
qed

lemma push_word_fields:
  fixes x :: u64
  assumes "w < 2 ^ 16"
  shows "((x AND NOT kStackMask) OR of_nat w) AND kEpochMask = x AND kEpochMask"
    and "((x AND NOT kStackMask) OR of_nat w) AND kWaiterMask = x AND kWaiterMask"
    and "((x AND NOT kStackMask) OR of_nat w) AND kStackMask = of_nat w"
    and "unat (of_nat w :: u64) = w"
proof -
  have t: "take_bit 16 w = w" by (rule take_bit_nat_eq_self) (rule assms)
  have bw: "bit w k \<Longrightarrow> k < 16" for k
    by (metis t bit_take_bit_iff)
  show "((x AND NOT kStackMask) OR of_nat w) AND kEpochMask = x AND kEpochMask"
    by (rule bit_word_eqI) (auto simp: bit_simps bit_kStackMask bit_kEpochMask dest: bw)
  show "((x AND NOT kStackMask) OR of_nat w) AND kWaiterMask = x AND kWaiterMask"
    by (rule bit_word_eqI) (auto simp: bit_simps bit_kStackMask bit_kWaiterMask dest: bw)
  show "((x AND NOT kStackMask) OR of_nat w) AND kStackMask = of_nat w"
    by (rule bit_word_eqI) (auto simp: bit_simps bit_kStackMask dest: bw)
  have "w < 2 ^ 64" using assms by simp
  then have "take_bit 64 w = w" by (rule take_bit_nat_eq_self)
  then show "unat (of_nat w :: u64) = w" by (simp add: unsigned_of_nat)
qed

lemma prepare_count_field: "prepare_count s = unat (take_bit 16 (drop_bit 16 s))"
proof -
  have "drop_bit 16 (s AND kWaiterMask) = take_bit 16 (drop_bit 16 s)"
    unfolding waiter_field by (rule bit_word_eqI) (auto simp: bit_simps)
  then show ?thesis by (simp add: prepare_count_def kWaiterShift_def)
qed

lemma waiter_field_count: "s AND kWaiterMask = kWaiterInc * of_nat (prepare_count s)"
  by (simp add: waiter_field prepare_count_field kWaiterInc_def kWaiterBits_def push_bit_eq_mult)

lemma prepare_count_less: "prepare_count s < 65536"
proof -
  have "unat (take_bit 16 (drop_bit 16 s)) < 2 ^ 16"
    by (simp only: unsigned_take_bit_eq take_bit_nat_less_exp)
  then show ?thesis by (simp add: prepare_count_field)
qed

lemma prepare_count_0_iff: "prepare_count s = 0 \<longleftrightarrow> s AND kWaiterMask = 0"
proof
  assume "prepare_count s = 0"
  then show "s AND kWaiterMask = 0" by (simp add: waiter_field_count)
next
  assume "s AND kWaiterMask = 0"
  then show "prepare_count s = 0" by (simp add: prepare_count_def)
qed

lemma expected_epoch_count:
  "expected_epoch e = (e AND kEpochMask) + kEpochInc * of_nat (prepare_count e)"
  by (simp add: expected_epoch_def prepare_count_def kEpochInc_def push_bit_eq_mult)

lemma waiter_part_inc:
  assumes "prepare_count s < 65535"
  shows "((s AND kWaiterMask) + kWaiterInc) AND kWaiterMask = (s AND kWaiterMask) + kWaiterInc"
proof -
  define p where "p = take_bit 16 (drop_bit 16 s)"
  have sp: "s AND kWaiterMask = push_bit 16 p" by (simp add: waiter_field p_def)
  have "unat p < 65535" using assms by (simp add: prepare_count_field p_def)
  then have u: "unat (p + 1) = unat p + 1" by (simp add: unat_word_ariths)
  with \<open>unat p < 65535\<close> have "unat (p + 1) < 2 ^ 16" by simp
  then have "p + 1 < 2 ^ 16" by (simp add: word_less_nat_alt)
  then have t: "take_bit 16 (p + 1) = p + 1" by (simp add: take_bit_eq_mask less_mask_eq)
  have "(s AND kWaiterMask) + kWaiterInc = push_bit 16 (p + 1)"
    by (simp add: sp kWaiterInc_def kWaiterBits_def push_bit_eq_mult algebra_simps)
  also have "\<dots> = push_bit 16 (take_bit 16 (p + 1))" by (simp add: t)
  finally show ?thesis by (simp add: push16_waiter_only)
qed

lemma prepare_word_fields:
  fixes s :: u64
  assumes "prepare_count s < 65535"
  shows "(s + kWaiterInc) AND kEpochMask = s AND kEpochMask"
    and "(s + kWaiterInc) AND kWaiterMask = (s AND kWaiterMask) + kWaiterInc"
    and "(s + kWaiterInc) AND kStackMask = s AND kStackMask"
proof -
  let ?a = "s AND kEpochMask" and ?b = "(s AND kWaiterMask) + kWaiterInc"
  let ?c = "s AND kStackMask"
  have "?a + ?b + ?c
      = ((s AND kEpochMask) + (s AND kWaiterMask) + (s AND kStackMask)) + kWaiterInc"
    by simp
  also have "\<dots> = s + kWaiterInc" by (simp only: fields_split[symmetric])
  finally have eq: "s + kWaiterInc = ?a + ?b + ?c" by simp
  have a: "?a AND kEpochMask = ?a" by (simp add: and.assoc)
  have b: "?b AND kWaiterMask = ?b" using assms by (rule waiter_part_inc)
  have c: "?c AND kStackMask = ?c" by (simp add: and.assoc)
  show "(s + kWaiterInc) AND kEpochMask = ?a"
    unfolding eq by (rule fields_of_sum[OF a b c])
  show "(s + kWaiterInc) AND kWaiterMask = ?b"
    unfolding eq by (rule fields_of_sum[OF a b c])
  show "(s + kWaiterInc) AND kStackMask = ?c"
    unfolding eq by (rule fields_of_sum[OF a b c])
qed

lemma notify_word_fields:
  fixes s x :: u64
  assumes "x AND kStackMask = x"
  shows "((s AND kEpochMask) + kEpochInc * m + x) AND kEpochMask = (s AND kEpochMask) + kEpochInc * m"
    and "((s AND kEpochMask) + kEpochInc * m + x) AND kWaiterMask = 0"
    and "((s AND kEpochMask) + kEpochInc * m + x) AND kStackMask = x"
proof -
  let ?a = "(s AND kEpochMask) + kEpochInc * m"
  have eq: "?a + x = ?a + 0 + x" by simp
  have a: "?a AND kEpochMask = ?a" by (simp add: epoch_part_add push32_epoch_only)
  have b: "(0::u64) AND kWaiterMask = 0" by simp
  show "(?a + x) AND kEpochMask = ?a"
    unfolding eq by (rule fields_of_sum[OF a b assms])
  show "(?a + x) AND kWaiterMask = 0"
    unfolding eq by (rule fields_of_sum[OF a b assms])
  show "(?a + x) AND kStackMask = x"
    unfolding eq by (rule fields_of_sum[OF a b assms])
qed

lemma kStackMask_stack_only: "kStackMask AND kStackMask = kStackMask"
  by simp

lemma of_nat_stack_only:
  assumes "j < 65536"
  shows "(of_nat j :: u64) AND kStackMask = of_nat j"
proof -
  have "take_bit 16 j = j" by (rule take_bit_nat_eq_self) (use assms in simp)
  then have "take_bit 16 (of_nat j :: u64) = of_nat j"
    by (metis take_bit_of_nat)
  then show ?thesis by (simp add: stack_field)
qed

lemma of_nat_not_sentinel:
  assumes "j < 65535"
  shows "(of_nat j :: u64) \<noteq> kStackMask"
proof
  assume "(of_nat j :: u64) = kStackMask"
  then have "unat (of_nat j :: u64) = unat kStackMask" by simp
  moreover have "unat (of_nat j :: u64) = j"
    using assms by (simp add: unsigned_of_nat take_bit_nat_eq_self)
  moreover have "unat kStackMask = 65535" by (simp add: kStackMask_def kStackBits_def)
  ultimately show False using assms by simp
qed

lemma dtor_test_iff:
  "s AND (kStackMask OR kWaiterMask) = kStackMask \<longleftrightarrow>
     s AND kWaiterMask = 0 \<and> s AND kStackMask = kStackMask"
proof
  assume h: "s AND (kStackMask OR kWaiterMask) = kStackMask"
  have "s AND kWaiterMask = (s AND (kStackMask OR kWaiterMask)) AND kWaiterMask"
    by (rule bit_word_eqI) (auto simp: bit_simps)
  also have "\<dots> = 0" unfolding h
    by (rule bit_word_eqI) (auto simp: bit_simps bit_kStackMask bit_kWaiterMask)
  finally have 1: "s AND kWaiterMask = 0" .
  have "s AND kStackMask = (s AND (kStackMask OR kWaiterMask)) AND kStackMask"
    by (rule bit_word_eqI) (auto simp: bit_simps)
  also have "\<dots> = kStackMask" unfolding h by simp
  finally show "s AND kWaiterMask = 0 \<and> s AND kStackMask = kStackMask" using 1 by simp
next
  assume "s AND kWaiterMask = 0 \<and> s AND kStackMask = kStackMask"
  then show "s AND (kStackMask OR kWaiterMask) = kStackMask"
    by (simp add: bit.conj_disj_distrib)
qed

lemma sint_epoch_units:
  assumes "m < 65536"
  shows "sint (kEpochInc * of_nat m :: u64) = 4294967296 * int m"
proof -
  have "uint (kEpochInc * of_nat m :: u64) = 4294967296 * int m"
    using assms by (simp add: kEpochInc_def kEpochShift_def uint_word_ariths unsigned_of_nat take_bit_eq_mod)
  moreover have "4294967296 * int m < 2 ^ 63" using assms by simp
  ultimately show ?thesis
    by (simp add: sint_uint signed_take_bit_int_eq_self)
qed

section \<open>The loops, case by case\<close>

text \<open>
  Each loop of the protocol, unfolded once at the current state word: the branch that
  yields reads the same word again and so never ends; every other branch ends the call.
\<close>

lemma CommitWait_loop_spins_aux:
  assumes "CommitWait_loop w epoch state n = Some y"
  shows "\<not> (state = n_state n \<and> sint ((n_state n AND kEpochMask) - epoch) < 0)"
  using assms
proof (rule CommitWait_loop.raw_induct[where P = "\<lambda>w epoch state n y.
          \<not> (state = n_state n \<and> sint ((n_state n AND kEpochMask) - epoch) < 0)", rotated])
  fix f :: "nat \<Rightarrow> u64 \<Rightarrow> u64 \<Rightarrow> Notifier \<Rightarrow> (error + Notifier outcome) option"
  fix w epoch state and n :: Notifier and y
  assume IH: "\<And>w epoch state n y. f w epoch state n = Some y \<Longrightarrow>
          \<not> (state = n_state n \<and> sint ((n_state n AND kEpochMask) - epoch) < 0)"
  assume body: "(if sint ((state AND kEpochMask) - epoch) < 0 then f w epoch (n_state n) n
      else if 0 < sint ((state AND kEpochMask) - epoch) then Some (Inr (Returned n))
      else if state AND kWaiterMask = 0 then Some (Inl AssertionFailed)
      else if state AND kStackMask = kStackMask
      then (if n_state n = state
            then Some (Inr (park w
                   (n\<lparr>n_waiters := (n_waiters n)[w := (n_waiters n ! w)\<lparr>w_next := None\<rparr>],
                      n_state := ((state - kWaiterInc + kEpochInc) AND NOT kStackMask) OR of_nat w\<rparr>)))
            else f w epoch (n_state n)
                   (n\<lparr>n_waiters := (n_waiters n)[w := (n_waiters n ! w)\<lparr>w_next := None\<rparr>]\<rparr>))
      else if unat (state AND kStackMask) < length (n_waiters n)
      then (if n_state n = state
            then Some (Inr (park w
                   (n\<lparr>n_waiters := (n_waiters n)[w := (n_waiters n ! w)
                                       \<lparr>w_next := Some (unat (state AND kStackMask))\<rparr>],
                      n_state := ((state - kWaiterInc + kEpochInc) AND NOT kStackMask) OR of_nat w\<rparr>)))
            else f w epoch (n_state n)
                   (n\<lparr>n_waiters := (n_waiters n)[w := (n_waiters n ! w)
                                       \<lparr>w_next := Some (unat (state AND kStackMask))\<rparr>]\<rparr>))
      else Some (Inl InvalidWaiter)) = Some y"
  show "\<not> (state = n_state n \<and> sint ((n_state n AND kEpochMask) - epoch) < 0)"
  proof
    assume a: "state = n_state n \<and> sint ((n_state n AND kEpochMask) - epoch) < 0"
    with body have "f w epoch (n_state n) n = Some y" by simp
    from IH[OF this] a show False by simp
  qed
qed

lemma CommitWait_loop_spins:
  "sint ((n_state n AND kEpochMask) - epoch) < 0 \<Longrightarrow> CommitWait_loop w epoch (n_state n) n = None"
  using CommitWait_loop_spins_aux[of w epoch "n_state n" n]
  by (cases "CommitWait_loop w epoch (n_state n) n") auto

lemma CommitWait_loop_returns:
  "0 < sint ((n_state n AND kEpochMask) - epoch) \<Longrightarrow>
     CommitWait_loop w epoch (n_state n) n = Some (Inr (Returned n))"
  by (subst CommitWait_loop.simps) simp

lemma CommitWait_loop_parks:
  assumes "n_state n AND kEpochMask = epoch" and "n_state n AND kWaiterMask \<noteq> 0"
    and "case stack_head (n_state n) of None \<Rightarrow> True | Some h \<Rightarrow> h < length (n_waiters n)"
  shows "CommitWait_loop w epoch (n_state n) n =
     Some (Inr (park w
       (n\<lparr>n_waiters := (n_waiters n)[w := (n_waiters n ! w)\<lparr>w_next := stack_head (n_state n)\<rparr>],
          n_state := ((n_state n - kWaiterInc + kEpochInc) AND NOT kStackMask) OR of_nat w\<rparr>)))"
  using assms by (subst CommitWait_loop.simps) (simp add: stack_head_def split: if_splits)

lemma CancelWait_loop_spins_aux:
  assumes "CancelWait_loop epoch state n = Some y"
  shows "\<not> (state = n_state n \<and> sint ((n_state n AND kEpochMask) - epoch) < 0)"
  using assms
proof (rule CancelWait_loop.raw_induct[where P = "\<lambda>epoch state n y.
          \<not> (state = n_state n \<and> sint ((n_state n AND kEpochMask) - epoch) < 0)", rotated])
  fix f epoch state n and y :: "error + Notifier"
  assume IH: "\<And>epoch state n y. f epoch state n = Some y \<Longrightarrow>
          \<not> (state = n_state n \<and> sint ((n_state n AND kEpochMask) - epoch) < 0)"
    and body: "(if sint ((state AND kEpochMask) - epoch) < 0 then f epoch (n_state n) n
      else if 0 < sint ((state AND kEpochMask) - epoch) then Some (Inr n)
      else if state AND kWaiterMask = 0 then Some (Inl AssertionFailed)
      else if n_state n = state
      then Some (Inr (n\<lparr>n_state := state - kWaiterInc + kEpochInc\<rparr>))
      else f epoch (n_state n) n) = Some y"
  show "\<not> (state = n_state n \<and> sint ((n_state n AND kEpochMask) - epoch) < 0)"
  proof
    assume a: "state = n_state n \<and> sint ((n_state n AND kEpochMask) - epoch) < 0"
    with body have "f epoch (n_state n) n = Some y" by simp
    from IH[OF this] a show False by simp
  qed
qed

lemma CancelWait_loop_spins:
  "sint ((n_state n AND kEpochMask) - epoch) < 0 \<Longrightarrow> CancelWait_loop epoch (n_state n) n = None"
  using CancelWait_loop_spins_aux[of epoch "n_state n" n]
  by (cases "CancelWait_loop epoch (n_state n) n") auto

lemma CancelWait_loop_returns:
  "0 < sint ((n_state n AND kEpochMask) - epoch) \<Longrightarrow>
     CancelWait_loop epoch (n_state n) n = Some (Inr n)"
  by (subst CancelWait_loop.simps) simp

lemma CancelWait_loop_resolves:
  "n_state n AND kEpochMask = epoch \<Longrightarrow> n_state n AND kWaiterMask \<noteq> 0 \<Longrightarrow>
     CancelWait_loop epoch (n_state n) n =
       Some (Inr (n\<lparr>n_state := n_state n - kWaiterInc + kEpochInc\<rparr>))"
  by (subst CancelWait_loop.simps) simp

lemma Notify_unfold:
  "Notify all n =
     (if n_state n AND kStackMask = kStackMask \<and> n_state n AND kWaiterMask = 0
      then Some (Inr (n, []))
      else case Notify_new_state all (n_state n) n of
             Inl e \<Rightarrow> Some (Inl e)
           | Inr new_state \<Rightarrow> Notify_signal all (n_state n) (n\<lparr>n_state := new_state\<rparr>))"
  unfolding Notify_def by (subst Notify_loop.simps) (simp split: sum.splits)

lemma signal_loop_single:
  assumes "w < length (n_waiters n)" and "w_next (n_waiters n ! w) = None"
  shows "signal_loop w (Some w) n lg =
     Some (Inr (n\<lparr>n_waiters := (n_waiters n)[w := (n_waiters n ! w)\<lparr>w_state := kSignaled\<rparr>]\<rparr>,
                lg @ [(w, w_state (n_waiters n ! w))]))"
  using assms
  by (subst signal_loop.simps) (simp add: signal_body_def, subst signal_loop.simps, simp)

lemma signal_loop_diverges_aux:
  assumes "signal_loop w iter n lg = Some y"
  shows "\<not> (w < length (n_waiters n) \<and>
            (\<exists>i j. iter = Some i \<and> i < length (n_waiters n) \<and>
                   w_next (n_waiters n ! w) = Some j \<and> j < length (n_waiters n)))"
  using assms
proof (rule signal_loop.raw_induct[where P = "\<lambda>w iter n lg y.
          \<not> (w < length (n_waiters n) \<and>
            (\<exists>i j. iter = Some i \<and> i < length (n_waiters n) \<and>
                   w_next (n_waiters n ! w) = Some j \<and> j < length (n_waiters n)))", rotated])
  fix f w iter n lg and y :: "error + Notifier \<times> log"
  assume IH: "\<And>w iter n lg y. f w iter n lg = Some y \<Longrightarrow>
          \<not> (w < length (n_waiters n) \<and>
            (\<exists>i j. iter = Some i \<and> i < length (n_waiters n) \<and>
                   w_next (n_waiters n ! w) = Some j \<and> j < length (n_waiters n)))"
    and body: "(case iter of
        None \<Rightarrow> Some (Inr (n, lg))
      | Some i \<Rightarrow>
          if i < length (n_waiters n)
          then (case signal_body w i n lg of (iter', n', lg') \<Rightarrow> f w iter' n' lg')
          else Some (Inl InvalidWaiter)) = Some y"
  show "\<not> (w < length (n_waiters n) \<and>
            (\<exists>i j. iter = Some i \<and> i < length (n_waiters n) \<and>
                   w_next (n_waiters n ! w) = Some j \<and> j < length (n_waiters n)))"
  proof
    assume "w < length (n_waiters n) \<and>
            (\<exists>i j. iter = Some i \<and> i < length (n_waiters n) \<and>
                   w_next (n_waiters n ! w) = Some j \<and> j < length (n_waiters n))"
    then obtain i j where w: "w < length (n_waiters n)" and it: "iter = Some i"
      and i: "i < length (n_waiters n)" and nx: "w_next (n_waiters n ! w) = Some j"
      and j: "j < length (n_waiters n)" by blast
    let ?n' = "n\<lparr>n_waiters := (n_waiters n)[i := (n_waiters n ! i)\<lparr>w_state := kSignaled\<rparr>]\<rparr>"
    from body it i nx have "f w (Some j) ?n' (lg @ [(i, w_state (n_waiters n ! i))]) = Some y"
      by (simp add: signal_body_def)
    from IH[OF this] have "\<not> (w < length (n_waiters ?n') \<and>
            (\<exists>i' j'. Some j = Some i' \<and> i' < length (n_waiters ?n') \<and>
                   w_next (n_waiters ?n' ! w) = Some j' \<and> j' < length (n_waiters ?n')))" .
    moreover have "w_next (n_waiters ?n' ! w) = Some j"
      using w i nx by (cases "w = i") simp_all
    ultimately show False using w j by simp
  qed
qed

lemma signal_loop_diverges:
  assumes "w < length (n_waiters n)" and "i < length (n_waiters n)"
    and "w_next (n_waiters n ! w) = Some j" and "j < length (n_waiters n)"
  shows "signal_loop w (Some i) n lg = None"
  using signal_loop_diverges_aux[of w "Some i" n lg] assms
  by (cases "signal_loop w (Some i) n lg") auto

section \<open>Single calls\<close>

text \<open>What one call of each operation does, by the branch it takes.\<close>

lemma sint_zero_iff: "sint (x - y :: u64) = 0 \<longleftrightarrow> x = y"
  by (metis right_minus_eq signed_eq_0_iff)

lemma waiters_word: "drop_bit kWaiterShift (s AND kWaiterMask) = of_nat (prepare_count s)"
  by (simp add: prepare_count_def)

lemma waiters_pos_iff: "0 < drop_bit kWaiterShift (s AND kWaiterMask) \<longleftrightarrow> s AND kWaiterMask \<noteq> 0"
proof -
  have "drop_bit kWaiterShift (s AND kWaiterMask) = 0 \<longleftrightarrow> prepare_count s = 0"
    by (simp add: prepare_count_def unat_eq_0)
  then show ?thesis by (simp add: word_gt_0 prepare_count_0_iff)
qed

lemma stack_head_Some:
  "stack_head s = Some h \<longleftrightarrow> s AND kStackMask \<noteq> kStackMask \<and> h = unat (s AND kStackMask)"
  by (auto simp: stack_head_def)

lemma stack_head_None: "stack_head s = None \<longleftrightarrow> s AND kStackMask = kStackMask"
  by (simp add: stack_head_def)

lemma Notify_false_announced:
  assumes "n_state n AND kWaiterMask \<noteq> 0"
  shows "Notify False n = Some (Inr (n\<lparr>n_state := n_state n + kEpochInc - kWaiterInc\<rparr>, []))"
  unfolding Notify_unfold Notify_new_state_def Notify_signal_def Let_def waiters_pos_iff
  using assms by simp

lemma Notify_false_pop:
  assumes "n_state n AND kWaiterMask = 0" and "stack_head (n_state n) = Some h"
    and "h < length (n_waiters n)"
  shows "Notify False n =
     Some (Inr (n\<lparr>n_waiters := (n_waiters n)[h := (n_waiters n ! h)
                       \<lparr>w_next := None, w_state := kSignaled\<rparr>],
                   n_state := (n_state n AND kEpochMask) +
                     (case w_next (n_waiters n ! h) of None \<Rightarrow> kStackMask | Some j \<Rightarrow> of_nat j)\<rparr>,
                [(h, w_state (n_waiters n ! h))]))"
proof -
  from assms(2) have ne: "n_state n AND kStackMask \<noteq> kStackMask"
    and h: "unat (n_state n AND kStackMask) = h" by (simp_all add: stack_head_Some)
  let ?ns = "(n_state n AND kEpochMask) +
               (case w_next (n_waiters n ! h) of None \<Rightarrow> kStackMask | Some j \<Rightarrow> of_nat j)"
  have 1: "Notify_new_state False (n_state n) n = Inr ?ns"
    unfolding Notify_new_state_def Let_def waiters_pos_iff using assms(1,3) h by simp
  let ?n2 = "n\<lparr>n_state := ?ns, n_waiters := (n_waiters n)[h := (n_waiters n ! h)\<lparr>w_next := None\<rparr>]\<rparr>"
  have 2: "Notify_signal False (n_state n) (n\<lparr>n_state := ?ns\<rparr>) = signal_loop h (Some h) ?n2 []"
    unfolding Notify_signal_def waiters_pos_iff using assms(1,3) h ne by simp
  have 3: "signal_loop h (Some h) ?n2 [] =
     Some (Inr (?n2\<lparr>n_waiters := (n_waiters ?n2)[h := (n_waiters ?n2 ! h)\<lparr>w_state := kSignaled\<rparr>]\<rparr>,
                [] @ [(h, w_state (n_waiters ?n2 ! h))]))"
    by (rule signal_loop_single) (use assms(3) in simp_all)
  show ?thesis
    using ne assms(3) by (simp add: Notify_unfold 1 2 3)
qed

lemma Notify_true_no_parked:
  assumes "n_state n AND kWaiterMask \<noteq> 0" and "stack_head (n_state n) = None"
  shows "Notify True n =
     Some (Inr (n\<lparr>n_state := (n_state n AND kEpochMask) +
                   kEpochInc * of_nat (prepare_count (n_state n)) + kStackMask\<rparr>, []))"
  unfolding Notify_unfold Notify_new_state_def Notify_signal_def Let_def waiters_word
  using assms by (simp add: stack_head_None)

lemma Notify_true_one_parked:
  assumes "stack_head (n_state n) = Some h" and "h < length (n_waiters n)"
    and "w_next (n_waiters n ! h) = None"
  shows "Notify True n =
     Some (Inr (n\<lparr>n_waiters := (n_waiters n)[h := (n_waiters n ! h)\<lparr>w_state := kSignaled\<rparr>],
                   n_state := (n_state n AND kEpochMask) +
                     kEpochInc * of_nat (prepare_count (n_state n)) + kStackMask\<rparr>,
                [(h, w_state (n_waiters n ! h))]))"
proof -
  from assms(1) have ne: "n_state n AND kStackMask \<noteq> kStackMask"
    and h: "unat (n_state n AND kStackMask) = h" by (simp_all add: stack_head_Some)
  let ?ns = "(n_state n AND kEpochMask) + kEpochInc * of_nat (prepare_count (n_state n)) + kStackMask"
  let ?n2 = "n\<lparr>n_state := ?ns\<rparr>"
  have 3: "signal_loop h (Some h) ?n2 [] =
     Some (Inr (?n2\<lparr>n_waiters := (n_waiters ?n2)[h := (n_waiters ?n2 ! h)\<lparr>w_state := kSignaled\<rparr>]\<rparr>,
                [] @ [(h, w_state (n_waiters ?n2 ! h))]))"
    by (rule signal_loop_single) (use assms(2,3) in simp_all)
  show ?thesis
    unfolding Notify_unfold Notify_new_state_def Notify_signal_def Let_def waiters_word
    using ne assms(2) h 3 by simp
qed

lemma Notify_true_diverges:
  assumes "stack_head (n_state n) = Some h" and "h < length (n_waiters n)"
    and "w_next (n_waiters n ! h) = Some j" and "j < length (n_waiters n)"
  shows "Notify True n = None"
proof -
  from assms(1) have ne: "n_state n AND kStackMask \<noteq> kStackMask"
    and h: "unat (n_state n AND kStackMask) = h" by (simp_all add: stack_head_Some)
  let ?ns = "(n_state n AND kEpochMask) + kEpochInc * of_nat (prepare_count (n_state n)) + kStackMask"
  let ?n2 = "n\<lparr>n_state := ?ns\<rparr>"
  have 3: "signal_loop h (Some h) ?n2 [] = None"
    by (rule signal_loop_diverges[where j = j]) (use assms(2,3,4) in simp_all)
  show ?thesis
    unfolding Notify_unfold Notify_new_state_def Notify_signal_def Let_def waiters_word
    using ne assms(2) h 3 by simp
qed

lemma CommitWait_parks:
  assumes "w < length (n_waiters n)"
    and "n_state n AND kEpochMask = expected_epoch (w_epoch (n_waiters n ! w))"
    and "n_state n AND kWaiterMask \<noteq> 0"
    and "case stack_head (n_state n) of None \<Rightarrow> True | Some h \<Rightarrow> h < length (n_waiters n)"
  shows "CommitWait w n = Some (Inr (Parked
     (n\<lparr>n_waiters := (n_waiters n)[w := (n_waiters n ! w)
           \<lparr>w_next := stack_head (n_state n), w_state := kWaiting\<rparr>],
        n_state := ((n_state n - kWaiterInc + kEpochInc) AND NOT kStackMask) OR of_nat w\<rparr>)))"
proof -
  let ?n0 = "n\<lparr>n_waiters := (n_waiters n)[w := (n_waiters n ! w)\<lparr>w_state := kNotSignaled\<rparr>]\<rparr>"
  have "CommitWait_loop w (expected_epoch (w_epoch (n_waiters n ! w))) (n_state ?n0) ?n0 =
     Some (Inr (park w
       (?n0\<lparr>n_waiters := (n_waiters ?n0)[w := (n_waiters ?n0 ! w)\<lparr>w_next := stack_head (n_state ?n0)\<rparr>],
          n_state := ((n_state ?n0 - kWaiterInc + kEpochInc) AND NOT kStackMask) OR of_nat w\<rparr>)))"
    by (rule CommitWait_loop_parks) (use assms in \<open>auto split: option.splits\<close>)
  then show ?thesis using assms(1) by (simp add: CommitWait_def park_def)
qed

lemma CancelWait_resolves:
  assumes "w < length (n_waiters n)"
    and "n_state n AND kEpochMask = expected_epoch (w_epoch (n_waiters n ! w))"
    and "n_state n AND kWaiterMask \<noteq> 0"
  shows "CancelWait w n = Some (Inr (n\<lparr>n_state := n_state n - kWaiterInc + kEpochInc\<rparr>))"
  using assms by (simp add: CancelWait_def CancelWait_loop_resolves)

lemma epoch_after_unit: "s' AND kEpochMask = (s AND kEpochMask) + kEpochInc \<Longrightarrow> epoch_after s' s"
  using sint_epoch_units[of 1] by (simp add: epoch_after_def)

lemma epoch_after_units:
  assumes "s' AND kEpochMask = (s AND kEpochMask) + kEpochInc * of_nat m" and "0 < m" and "m < 65536"
  shows "epoch_after s' s"
  using sint_epoch_units[OF assms(3)] assms(1,2) by (simp add: epoch_after_def)

lemma epoch_after_irrefl: "s' AND kEpochMask = s AND kEpochMask \<Longrightarrow> \<not> epoch_after s' s"
  by (simp add: epoch_after_def)

lemma notify_one_word_fields:
  fixes s :: u64
  assumes "s AND kWaiterMask \<noteq> 0"
  shows "(s + kEpochInc - kWaiterInc) AND kEpochMask = (s AND kEpochMask) + kEpochInc"
    and "(s + kEpochInc - kWaiterInc) AND kWaiterMask = (s AND kWaiterMask) - kWaiterInc"
    and "(s + kEpochInc - kWaiterInc) AND kStackMask = s AND kStackMask"
proof -
  have eq: "s + kEpochInc - kWaiterInc = s - kWaiterInc + kEpochInc" by simp
  show "(s + kEpochInc - kWaiterInc) AND kEpochMask = (s AND kEpochMask) + kEpochInc"
    unfolding eq by (rule commit_word_fields[OF assms])
  show "(s + kEpochInc - kWaiterInc) AND kWaiterMask = (s AND kWaiterMask) - kWaiterInc"
    unfolding eq by (rule commit_word_fields[OF assms])
  show "(s + kEpochInc - kWaiterInc) AND kStackMask = s AND kStackMask"
    unfolding eq by (rule commit_word_fields[OF assms])
qed

lemma links_in_rangeD:
  "links_in_range n \<Longrightarrow> i < length (n_waiters n) \<Longrightarrow> w_next (n_waiters n ! i) = Some j \<Longrightarrow>
     j < length (n_waiters n)"
  by (fastforce simp: links_in_range_def list_all_length)

lemma next_word_stack_only:
  assumes "case nx of None \<Rightarrow> True | Some j \<Rightarrow> j < 65535"
  shows "(case nx of None \<Rightarrow> kStackMask | Some j \<Rightarrow> of_nat j) AND kStackMask =
         (case nx of None \<Rightarrow> kStackMask | Some j \<Rightarrow> (of_nat j :: u64))"
  using assms by (cases nx) (simp_all add: of_nat_stack_only)

lemma sint_neg_epoch_units:
  assumes "m < 65536"
  shows "sint (- (kEpochInc * of_nat m) :: u64) = - (4294967296 * int m)"
proof -
  have "- (2 ^ 63) \<le> - (4294967296 * int m)" "- (4294967296 * int m) < 2 ^ 63"
    using assms by simp_all
  then have "signed_take_bit 63 (- (4294967296 * int m)) = - (4294967296 * int m)"
    by (rule signed_take_bit_int_eq_self)
  then show ?thesis
    unfolding sint_word_minus sint_epoch_units[OF assms] by simp
qed

lemma prepare_count_of_units:
  assumes "k < 65536"
  shows "unat (drop_bit kWaiterShift (kWaiterInc * of_nat k :: u64)) = k"
proof -
  have "unat (kWaiterInc * of_nat k :: u64) = 65536 * k"
    using assms
    by (simp add: kWaiterInc_def kWaiterBits_def unat_word_ariths unsigned_of_nat take_bit_eq_mod)
  then show ?thesis
    by (simp only: unat_drop_bit_eq kWaiterShift_def) (simp add: drop_bit_eq_div)
qed

lemma prepare_count_Suc:
  assumes "prepare_count s < 65535"
  shows "prepare_count (s + kWaiterInc) = prepare_count s + 1"
proof -
  have "(s + kWaiterInc) AND kWaiterMask = kWaiterInc * of_nat (prepare_count s + 1)"
    unfolding prepare_word_fields(2)[OF assms] waiter_field_count[of s] by (simp add: algebra_simps)
  then show ?thesis
    unfolding prepare_count_def[of "s + kWaiterInc"]
    using prepare_count_of_units[of "prepare_count s + 1"] assms by simp
qed

lemma PrepareWait_then_epochs:
  assumes "prepare_count s < 65535"
  shows "((s + kWaiterInc) AND kEpochMask) - expected_epoch s = - (kEpochInc * of_nat (prepare_count s))"
  by (simp add: prepare_word_fields[OF assms] expected_epoch_count)

lemma CancelWait_spins:
  assumes "w < length (n_waiters n)"
    and "sint ((n_state n AND kEpochMask) - expected_epoch (w_epoch (n_waiters n ! w))) < 0"
  shows "CancelWait w n = None"
  using assms by (simp add: CancelWait_def CancelWait_loop_spins)

section \<open>The park stack\<close>

text \<open>
  Parking pushes a slot on the chain that the state word heads, and \<open>Notify(false)\<close>
  pops the top of it.
\<close>

lemma stack_chain_in_range: "stack_chain ws h xs \<Longrightarrow> x \<in> set xs \<Longrightarrow> x < length ws"
  by (induction ws h xs rule: stack_chain.induct) auto

lemma stack_chain_cong:
  assumes "stack_chain ws h xs" and "length ws' = length ws"
    and "\<And>x. x \<in> set xs \<Longrightarrow> w_next (ws' ! x) = w_next (ws ! x)"
  shows "stack_chain ws' h xs"
  using assms by (induction ws h xs rule: stack_chain.induct) auto

lemma stack_chain_Cons:
  "stack_chain ws h (x # xs) \<longleftrightarrow> h = Some x \<and> x < length ws \<and> stack_chain ws (w_next (ws ! x)) xs"
  by (cases h) auto

lemma stack_chain_Nil: "stack_chain ws h [] \<longleftrightarrow> h = None"
  by (cases h) auto

lemma pop_word_fields:
  fixes s :: u64
  assumes "case nx of None \<Rightarrow> True | Some j \<Rightarrow> j < 65535"
  shows "stack_head ((s AND kEpochMask) + (case nx of None \<Rightarrow> kStackMask | Some j \<Rightarrow> of_nat j)) = nx"
    and "((s AND kEpochMask) + (case nx of None \<Rightarrow> kStackMask | Some j \<Rightarrow> of_nat j)) AND kWaiterMask = 0"
    and "((s AND kEpochMask) + (case nx of None \<Rightarrow> kStackMask | Some j \<Rightarrow> of_nat j)) AND kEpochMask
           = s AND kEpochMask"
proof -
  let ?x = "case nx of None \<Rightarrow> kStackMask | Some j \<Rightarrow> (of_nat j :: u64)"
  have x: "?x AND kStackMask = ?x" using assms by (rule next_word_stack_only)
  have f: "((s AND kEpochMask) + kEpochInc * 0 + ?x) AND kEpochMask = (s AND kEpochMask) + kEpochInc * 0"
    "((s AND kEpochMask) + kEpochInc * 0 + ?x) AND kWaiterMask = 0"
    "((s AND kEpochMask) + kEpochInc * 0 + ?x) AND kStackMask = ?x"
    using x by (rule notify_word_fields)+
  from f(2) show "((s AND kEpochMask) + ?x) AND kWaiterMask = 0" by simp
  from f(1) show "((s AND kEpochMask) + ?x) AND kEpochMask = s AND kEpochMask" by simp
  from f(3) have 3: "((s AND kEpochMask) + ?x) AND kStackMask = ?x" by simp
  show "stack_head ((s AND kEpochMask) + ?x) = nx"
  proof (cases nx)
    case None
    then show ?thesis using 3 by (simp add: stack_head_def)
  next
    case (Some j)
    with assms have j: "j < 65535" by simp
    then have "j < 2 ^ 16" by simp
    then have "unat (of_nat j :: u64) = j" by (rule push_word_fields(4))
    then show ?thesis
      using 3 Some of_nat_not_sentinel[OF j] by (simp add: stack_head_def)
  qed
qed

lemma Notify_false_times_chain:
  assumes "stack_chain (n_waiters n) (stack_head (n_state n)) xs" and "distinct xs"
    and "n_state n AND kWaiterMask = 0" and "length (n_waiters n) < 65535" and "j \<le> length xs"
  shows "\<exists>n'. Notify_false_times j n =
                 Some (Inr (n', map (\<lambda>x. (x, w_state (n_waiters n ! x))) (take j xs))) \<and>
              stack_chain (n_waiters n') (stack_head (n_state n')) (drop j xs) \<and>
              n_state n' AND kWaiterMask = 0 \<and>
              n_state n' AND kEpochMask = n_state n AND kEpochMask \<and>
              length (n_waiters n') = length (n_waiters n) \<and>
              (\<forall>x. x \<in> set (take j xs) \<longrightarrow> w_state (n_waiters n' ! x) = kSignaled) \<and>
              (\<forall>i. i \<notin> set (take j xs) \<longrightarrow> n_waiters n' ! i = n_waiters n ! i)"
  using assms
proof (induction j arbitrary: n xs)
  case 0
  then show ?case by simp
next
  case (Suc j)
  then obtain x xs' where xs: "xs = x # xs'" by (cases xs) auto
  let ?ws = "n_waiters n"
  from Suc.prems(1) xs have hd: "stack_head (n_state n) = Some x" and x: "x < length ?ws"
    and ch: "stack_chain ?ws (w_next (?ws ! x)) xs'" by (simp_all add: stack_chain_Cons)
  from Suc.prems(2) xs have nin: "x \<notin> set xs'" and d: "distinct xs'" by simp_all
  let ?nx = "w_next (?ws ! x)"
  let ?n1 = "n\<lparr>n_waiters := ?ws[x := (?ws ! x)\<lparr>w_next := None, w_state := kSignaled\<rparr>],
               n_state := (n_state n AND kEpochMask) +
                 (case ?nx of None \<Rightarrow> kStackMask | Some j \<Rightarrow> of_nat j)\<rparr>"
  have 1: "Notify False n = Some (Inr (?n1, [(x, w_state (?ws ! x))]))"
    by (rule Notify_false_pop[OF Suc.prems(3) hd x])
  have nxr: "case ?nx of None \<Rightarrow> True | Some j \<Rightarrow> j < 65535"
  proof (cases ?nx)
    case None
    then show ?thesis by simp
  next
    case (Some y)
    with ch obtain ys where "xs' = y # ys" by (cases xs') auto
    with ch Some have "y < length ?ws" by (simp add: stack_chain_Cons)
    with Suc.prems(4) Some show ?thesis by simp
  qed
  have h1: "stack_head (n_state ?n1) = ?nx" and w1: "n_state ?n1 AND kWaiterMask = 0"
    and e1: "n_state ?n1 AND kEpochMask = n_state n AND kEpochMask"
    using pop_word_fields[OF nxr, of "n_state n"] by simp_all
  have c1: "stack_chain (n_waiters ?n1) (stack_head (n_state ?n1)) xs'"
    unfolding h1
  proof (rule stack_chain_cong[OF ch])
    show "length (n_waiters ?n1) = length ?ws" by simp
    fix y assume "y \<in> set xs'"
    with nin have "y \<noteq> x" by auto
    then show "w_next (n_waiters ?n1 ! y) = w_next (?ws ! y)" by simp
  qed
  have l1: "length (n_waiters ?n1) < 65535" using Suc.prems(4) by simp
  have j: "j \<le> length xs'" using Suc.prems(5) xs by simp
  from Suc.IH[OF c1 d w1 l1 j] obtain n' where
    r: "Notify_false_times j ?n1 =
          Some (Inr (n', map (\<lambda>y. (y, w_state (n_waiters ?n1 ! y))) (take j xs')))"
    and c: "stack_chain (n_waiters n') (stack_head (n_state n')) (drop j xs')"
    and w: "n_state n' AND kWaiterMask = 0"
    and e: "n_state n' AND kEpochMask = n_state ?n1 AND kEpochMask"
    and l: "length (n_waiters n') = length (n_waiters ?n1)"
    and sg: "\<forall>y. y \<in> set (take j xs') \<longrightarrow> w_state (n_waiters n' ! y) = kSignaled"
    and un: "\<forall>i. i \<notin> set (take j xs') \<longrightarrow> n_waiters n' ! i = n_waiters ?n1 ! i"
    by blast
  have m: "map (\<lambda>y. (y, w_state (n_waiters ?n1 ! y))) (take j xs')
         = map (\<lambda>y. (y, w_state (?ws ! y))) (take j xs')"
  proof (rule map_cong[OF refl])
    fix y assume "y \<in> set (take j xs')"
    then have "y \<in> set xs'" by (rule in_set_takeD)
    with nin have "y \<noteq> x" by auto
    then show "(y, w_state (n_waiters ?n1 ! y)) = (y, w_state (?ws ! y))" by simp
  qed
  have xn: "x \<notin> set (take j xs')" using nin by (auto dest: in_set_takeD)
  have sx: "w_state (n_waiters n' ! x) = kSignaled"
    using un xn x by simp
  have "Notify_false_times (Suc j) n =
          Some (Inr (n', map (\<lambda>y. (y, w_state (?ws ! y))) (take (Suc j) xs)))"
    by (simp only: Notify_false_times.simps 1 r m xs option.case sum.case prod.case
          take_Suc_Cons list.map append.simps)
  moreover have "stack_chain (n_waiters n') (stack_head (n_state n')) (drop (Suc j) xs)"
    using c xs by simp
  moreover have "n_state n' AND kEpochMask = n_state n AND kEpochMask" using e e1 by simp
  moreover have "length (n_waiters n') = length ?ws" using l by simp
  moreover have "\<forall>y. y \<in> set (take (Suc j) xs) \<longrightarrow> w_state (n_waiters n' ! y) = kSignaled"
    using sg sx xs by auto
  moreover have "\<forall>i. i \<notin> set (take (Suc j) xs) \<longrightarrow> n_waiters n' ! i = ?ws ! i"
    using un xs by auto
  ultimately show ?case using w by blast
qed

lemma announce_and_park:
  assumes "w < length (n_waiters n)" and "n_state n AND kWaiterMask = 0"
    and "length (n_waiters n) < 65535"
    and "case stack_head (n_state n) of None \<Rightarrow> True | Some h \<Rightarrow> h < length (n_waiters n)"
  shows "\<exists>n1 n2. PrepareWait w n = Inr n1 \<and> CommitWait w n1 = Some (Inr (Parked n2)) \<and>
           n_waiters n2 = (n_waiters n)[w := \<lparr>w_next = stack_head (n_state n),
                                              w_epoch = n_state n, w_state = kWaiting\<rparr>] \<and>
           stack_head (n_state n2) = Some w \<and>
           n_state n2 AND kWaiterMask = 0 \<and>
           n_state n2 AND kEpochMask = (n_state n AND kEpochMask) + kEpochInc"
proof -
  let ?s = "n_state n"
  let ?n1 = "n\<lparr>n_waiters := (n_waiters n)[w := (n_waiters n ! w)\<lparr>w_epoch := ?s\<rparr>],
               n_state := ?s + kWaiterInc\<rparr>"
  have p: "PrepareWait w n = Inr ?n1" using assms(1) by (simp add: PrepareWait_def)
  have z: "prepare_count ?s = 0" using assms(2) by (simp add: prepare_count_0_iff)
  then have lt: "prepare_count ?s < 65535" by simp
  have snap: "w_epoch (n_waiters ?n1 ! w) = ?s" using assms(1) by simp
  have w1: "w < length (n_waiters ?n1)" using assms(1) by simp
  have eq: "n_state ?n1 AND kEpochMask = expected_epoch (w_epoch (n_waiters ?n1 ! w))"
    unfolding snap using prepare_word_fields(1)[OF lt] by (simp add: expected_epoch_count z)
  have wf: "n_state ?n1 AND kWaiterMask = kWaiterInc"
    using prepare_word_fields(2)[OF lt] assms(2) by simp
  then have ne: "n_state ?n1 AND kWaiterMask \<noteq> 0"
    by (simp add: kWaiterInc_def kWaiterBits_def)
  have sh: "stack_head (n_state ?n1) = stack_head ?s"
    using prepare_word_fields(3)[OF lt] by (simp add: stack_head_def)
  have hd: "case stack_head (n_state ?n1) of None \<Rightarrow> True
            | Some h \<Rightarrow> h < length (n_waiters ?n1)"
    unfolding sh using assms(4) by (auto split: option.splits)
  let ?n2 = "?n1\<lparr>n_waiters := (n_waiters ?n1)[w := (n_waiters ?n1 ! w)
                   \<lparr>w_next := stack_head (n_state ?n1), w_state := kWaiting\<rparr>],
                n_state := ((n_state ?n1 - kWaiterInc + kEpochInc) AND NOT kStackMask) OR of_nat w\<rparr>"
  have c: "CommitWait w ?n1 = Some (Inr (Parked ?n2))"
    by (rule CommitWait_parks[OF w1 eq ne hd])
  have w16: "w < 2 ^ 16" and w15: "w < 65535" using assms(1,3) by simp_all
  have s2: "n_state ?n2 = ((n_state ?n1 - kWaiterInc + kEpochInc) AND NOT kStackMask) OR of_nat w"
    by simp
  have f1: "stack_head (n_state ?n2) = Some w"
    unfolding s2 stack_head_def
    by (simp add: push_word_fields[OF w16] of_nat_not_sentinel[OF w15])
  have f2: "n_state ?n2 AND kWaiterMask = 0"
    unfolding s2 push_word_fields(2)[OF w16] commit_word_fields(2)[OF ne] wf by simp
  have f3: "n_state ?n2 AND kEpochMask = (?s AND kEpochMask) + kEpochInc"
    unfolding s2 push_word_fields(1)[OF w16] commit_word_fields(1)[OF ne]
    using prepare_word_fields(1)[OF lt] by simp
  have f4: "n_waiters ?n2 = (n_waiters n)[w := \<lparr>w_next = stack_head ?s,
                                              w_epoch = ?s, w_state = kWaiting\<rparr>]"
  proof -
    have rec: "(r\<lparr>w_epoch := a, w_next := b, w_state := c\<rparr> :: Waiter)
            = \<lparr>w_next = b, w_epoch = a, w_state = c\<rparr>" for r a b c
      by (cases r) simp
    show ?thesis using assms(1) sh by (simp add: rec)
  qed
  show ?thesis
    using p c f1 f2 f3 f4 by blast
qed

lemma park_all_chain:
  assumes "stack_chain (n_waiters n) (stack_head (n_state n)) cs"
    and "n_state n AND kWaiterMask = 0" and "length (n_waiters n) < 65535"
    and "distinct (ps @ cs)" and "\<forall>p \<in> set ps. p < length (n_waiters n)"
  shows "\<exists>n'. park_all ps n = Some n' \<and>
              stack_chain (n_waiters n') (stack_head (n_state n')) (rev ps @ cs) \<and>
              n_state n' AND kWaiterMask = 0 \<and>
              length (n_waiters n') = length (n_waiters n) \<and>
              (\<forall>p \<in> set ps. w_state (n_waiters n' ! p) = kWaiting) \<and>
              (\<forall>i. i \<notin> set ps \<longrightarrow> n_waiters n' ! i = n_waiters n ! i)"
  using assms
proof (induction ps arbitrary: n cs)
  case Nil
  then show ?case by simp
next
  case (Cons p ps)
  let ?ws = "n_waiters n"
  from Cons.prems(5) have p: "p < length ?ws" by simp
  have hd: "case stack_head (n_state n) of None \<Rightarrow> True | Some h \<Rightarrow> h < length ?ws"
    using Cons.prems(1) by (cases cs) (auto simp: stack_chain_Cons stack_chain_Nil)
  from announce_and_park[OF p Cons.prems(2,3) hd] obtain n1 n2 where
    a: "PrepareWait p n = Inr n1" "CommitWait p n1 = Some (Inr (Parked n2))"
    and ws2: "n_waiters n2 = ?ws[p := \<lparr>w_next = stack_head (n_state n),
                                        w_epoch = n_state n, w_state = kWaiting\<rparr>]"
    and h2: "stack_head (n_state n2) = Some p" and z2: "n_state n2 AND kWaiterMask = 0"
    by blast
  from Cons.prems(4) have pcs: "p \<notin> set cs" and pps: "p \<notin> set ps"
    and d: "distinct (ps @ p # cs)" by auto
  have "stack_chain (n_waiters n2) (stack_head (n_state n)) cs"
  proof (rule stack_chain_cong[OF Cons.prems(1)])
    show "length (n_waiters n2) = length ?ws" by (simp add: ws2)
    fix y assume "y \<in> set cs"
    with pcs have "y \<noteq> p" by auto
    then show "w_next (n_waiters n2 ! y) = w_next (?ws ! y)" by (simp add: ws2)
  qed
  then have c2: "stack_chain (n_waiters n2) (stack_head (n_state n2)) (p # cs)"
    unfolding h2 using p by (simp add: ws2)
  have l2: "length (n_waiters n2) < 65535" using Cons.prems(3) by (simp add: ws2)
  have r2: "\<forall>q \<in> set ps. q < length (n_waiters n2)" using Cons.prems(5) by (simp add: ws2)
  from Cons.IH[OF c2 z2 l2 d r2] obtain n' where
    r: "park_all ps n2 = Some n'"
    and c: "stack_chain (n_waiters n') (stack_head (n_state n')) (rev ps @ p # cs)"
    and z: "n_state n' AND kWaiterMask = 0"
    and l: "length (n_waiters n') = length (n_waiters n2)"
    and k: "\<forall>q \<in> set ps. w_state (n_waiters n' ! q) = kWaiting"
    and u: "\<forall>i. i \<notin> set ps \<longrightarrow> n_waiters n' ! i = n_waiters n2 ! i"
    by blast
  have "park_all (p # ps) n = Some n'" using a r by simp
  moreover have "stack_chain (n_waiters n') (stack_head (n_state n')) (rev (p # ps) @ cs)"
    using c by simp
  moreover have "length (n_waiters n') = length ?ws" using l by (simp add: ws2)
  moreover have "w_state (n_waiters n' ! p) = kWaiting"
    using u pps p by (simp add: ws2)
  then have "\<forall>q \<in> set (p # ps). w_state (n_waiters n' ! q) = kWaiting" using k by simp
  moreover have "\<forall>i. i \<notin> set (p # ps) \<longrightarrow> n_waiters n' ! i = ?ws ! i"
    using u by (simp add: ws2)
  ultimately show ?case using z by blast
qed

section \<open>NotifyN, construction and destruction\<close>

lemma NotifyN_loop_times:
  "NotifyN_loop i k n lg =
     (case Notify_false_times (k - i) n of
        None \<Rightarrow> None
      | Some (Inl e) \<Rightarrow> Some (Inl e)
      | Some (Inr (n', l)) \<Rightarrow> Some (Inr (n', lg @ l)))"
proof (induction i k n lg rule: NotifyN_loop.induct)
  case (1 i k n lg)
  show ?case
  proof (cases "i < k")
    case False
    then show ?thesis by (subst NotifyN_loop.simps) simp
  next
    case True
    then have s: "k - i = Suc (k - Suc i)" by simp
    have u: "NotifyN_loop i k n lg =
       (case Notify False n of
          None \<Rightarrow> None
        | Some (Inl e) \<Rightarrow> Some (Inl e)
        | Some (Inr (n', l)) \<Rightarrow> NotifyN_loop (Suc i) k n' (lg @ l))"
      using True by (subst NotifyN_loop.simps) simp
    show ?thesis
    proof (cases "Notify False n")
      case None
      then show ?thesis by (simp add: u s)
    next
      case (Some r)
      show ?thesis
      proof (cases r)
        case (Inl e)
        then show ?thesis using Some by (simp add: u s)
      next
        case (Inr p)
        obtain n' l where p: "p = (n', l)" by (cases p)
        from "1.IH"[OF True Some Inr p[symmetric]]
        show ?thesis using Some Inr p
          by (simp add: u s split: option.splits sum.splits prod.splits)
      qed
    qed
  qed
qed

lemma Notify_nothing_to_do:
  "n_state n AND kStackMask = kStackMask \<Longrightarrow> n_state n AND kWaiterMask = 0 \<Longrightarrow>
     Notify all n = Some (Inr (n, []))"
  by (simp add: Notify_unfold)

lemma ctor_word_fields:
  fixes x :: u64
  shows "(kStackMask OR (kEpochMask - kEpochInc * x)) AND kStackMask = kStackMask"
    and "(kStackMask OR (kEpochMask - kEpochInc * x)) AND kWaiterMask = 0"
proof -
  have "kEpochMask - kEpochInc * x = push_bit 32 (mask 32 - x)"
    by (simp add: kEpochMask_mask kEpochInc_def kEpochShift_def push_bit_eq_mult algebra_simps)
  then have e: "(kEpochMask - kEpochInc * x) AND kEpochMask = kEpochMask - kEpochInc * x"
    by (simp add: push32_epoch_only)
  show "(kStackMask OR (kEpochMask - kEpochInc * x)) AND kStackMask = kStackMask"
    by (rule bit_word_eqI) (use bit_epoch_only[OF e] in \<open>fastforce simp: bit_simps bit_kStackMask\<close>)
  show "(kStackMask OR (kEpochMask - kEpochInc * x)) AND kWaiterMask = 0"
    by (rule bit_word_eqI)
       (use bit_epoch_only[OF e] in \<open>fastforce simp: bit_simps bit_kStackMask bit_kWaiterMask\<close>)
qed

lemma ctor_idle:
  assumes "N < 65535"
  shows "\<exists>n0. Notifier_ctor N = Inr n0 \<and> length (n_waiters n0) = N \<and>
               stack_head (n_state n0) = None \<and> n_state n0 AND kWaiterMask = 0"
  using assms ctor_word_fields[of "of_nat N * 2"]
  by (simp add: Notifier_ctor_def kWaiterBits_def stack_head_def mult.assoc)

lemma dtor_passes_iff:
  "Notifier_dtor n = Inr () \<longleftrightarrow>
     n_state n AND kWaiterMask = 0 \<and> n_state n AND kStackMask = kStackMask"
  by (simp add: Notifier_dtor_def dtor_test_iff)

section \<open>The example states are reached\<close>

lemma layout_values:
  "kStackMask = 0xFFFF" "kWaiterMask = 0xFFFF0000" "kEpochMask = 0xFFFFFFFF00000000"
  "kWaiterInc = 0x10000" "kEpochInc = 0x100000000" "kWaiterShift = 16" "kEpochShift = 32"
  by (simp_all add: kStackMask_def kWaiterMask_def kEpochMask_def kWaiterInc_def kEpochInc_def
      kStackBits_def kWaiterBits_def kWaiterShift_def kEpochBits_def kEpochShift_def)

lemma replicate_4: "replicate 4 x = [x, x, x, x]"
  by (simp add: numeral_eq_Suc)

lemma idle4_reached: "Notifier_ctor 4 = Inr idle4"
  by (simp add: Notifier_ctor_def idle4_def layout_values kWaiterBits_def replicate_4 fresh_def)

lemma announced4_reached: "PrepareWait 0 idle4 = Inr announced4"
  by (simp add: PrepareWait_def idle4_def announced4_def fresh_def layout_values)

lemma announced4_twice_reached: "PrepareWait 1 announced4 = Inr announced4_twice"
  by (simp add: PrepareWait_def announced4_def announced4_twice_def fresh_def layout_values)

lemma parked4_1_reached: "CommitWait 0 announced4 = Some (Inr (Parked parked4_1))"
  apply (simp add: CommitWait_def announced4_def expected_epoch_def layout_values)
  apply (subst CommitWait_loop.simps)
  apply (simp add: layout_values)
  apply (simp add: park_def parked4_1_def fresh_def)
  done

lemma parked4_2_reached: "park_all [1] parked4_1 = Some parked4_2"
  apply (simp add: PrepareWait_def CommitWait_def parked4_1_def expected_epoch_def layout_values)
  apply (subst CommitWait_loop.simps)
  apply (simp add: layout_values)
  apply (simp add: park_def parked4_2_def fresh_def)
  done

lemma parked4_3_reached: "park_all [2] parked4_2 = Some parked4_3"
  apply (simp add: PrepareWait_def CommitWait_def parked4_2_def expected_epoch_def layout_values)
  apply (subst CommitWait_loop.simps)
  apply (simp add: layout_values)
  apply (simp add: park_def parked4_3_def fresh_def)
  done

lemma park_all_append:
  "park_all (xs @ ys) n = (case park_all xs n of None \<Rightarrow> None | Some n' \<Rightarrow> park_all ys n')"
  by (induction xs arbitrary: n) (auto split: sum.splits option.splits outcome.splits)

lemma parked4_1_park_all: "park_all [0] idle4 = Some parked4_1"
  by (simp add: announced4_reached parked4_1_reached)

lemma park_all_three: "park_all [0, 1, 2] idle4 = Some parked4_3"
proof -
  have "park_all ([0] @ [1] @ [2]) idle4 = Some parked4_3"
    by (simp only: park_all_append parked4_1_park_all parked4_2_reached parked4_3_reached
          option.case)
  then show ?thesis by simp
qed

lemma park_all_two: "park_all [0, 1] idle4 = Some parked4_2"
proof -
  have "park_all ([0] @ [1]) idle4 = Some parked4_2"
    by (simp only: park_all_append parked4_1_park_all parked4_2_reached option.case)
  then show ?thesis by simp
qed

lemma parked4_3_announced_reached: "PrepareWait 3 parked4_3 = Inr parked4_3_announced"
  by (simp add: PrepareWait_def parked4_3_def parked4_3_announced_def fresh_def layout_values)

lemma resolved4_reached: "Notify False announced4 = Some (Inr (resolved4, []))"
  by (simp add: Notify_unfold Notify_new_state_def Notify_signal_def announced4_def resolved4_def
        layout_values)

lemma woken4_1_reached: "Notify False parked4_1 = Some (Inr (woken4_1, [(0, kWaiting)]))"
proof -
  have 1: "n_state parked4_1 AND kWaiterMask = 0" "stack_head (n_state parked4_1) = Some 0"
    "0 < length (n_waiters parked4_1)"
    by (simp_all add: parked4_1_def stack_head_def layout_values)
  show ?thesis
    unfolding Notify_false_pop[OF 1]
    by (simp add: parked4_1_def woken4_1_def layout_values fresh_def)
qed

section \<open>The signalling loop, iteration by iteration\<close>

text \<open>
  When the signalling loop returns, it has done so after finitely many iterations; when
  the first node has a successor, no number of iterations ends it.
\<close>

lemma signal_loop_returns_run_aux:
  assumes "signal_loop w iter n lg = Some y"
  shows "\<forall>n' lg'. y = Inr (n', lg') \<longrightarrow> (\<exists>k. signal_run k w (iter, n, lg) = (None, n', lg'))"
  using assms
proof (rule signal_loop.raw_induct[where P = "\<lambda>w iter n lg y.
          \<forall>n' lg'. y = Inr (n', lg') \<longrightarrow> (\<exists>k. signal_run k w (iter, n, lg) = (None, n', lg'))",
        rotated])
  fix f :: "nat \<Rightarrow> nat option \<Rightarrow> Notifier \<Rightarrow> log \<Rightarrow> (error + Notifier \<times> log) option"
  fix w iter and n :: Notifier and lg :: log and y
  assume IH: "\<And>w iter n lg y. f w iter n lg = Some y \<Longrightarrow>
          \<forall>n' lg'. y = Inr (n', lg') \<longrightarrow> (\<exists>k. signal_run k w (iter, n, lg) = (None, n', lg'))"
    and body: "(case iter of
        None \<Rightarrow> Some (Inr (n, lg))
      | Some i \<Rightarrow>
          if i < length (n_waiters n)
          then (case signal_body w i n lg of (iter', n', lg') \<Rightarrow> f w iter' n' lg')
          else Some (Inl InvalidWaiter)) = Some y"
  show "\<forall>n' lg'. y = Inr (n', lg') \<longrightarrow> (\<exists>k. signal_run k w (iter, n, lg) = (None, n', lg'))"
  proof (intro allI impI)
    fix n' lg' assume y: "y = Inr (n', lg')"
    show "\<exists>k. signal_run k w (iter, n, lg) = (None, n', lg')"
    proof (cases iter)
      case None
      with body y have "signal_run 0 w (iter, n, lg) = (None, n', lg')" by simp
      then show ?thesis ..
    next
      case (Some i)
      obtain it1 n1 lg1 where b: "signal_body w i n lg = (it1, n1, lg1)"
        by (cases "signal_body w i n lg") auto
      from body Some y b have "f w it1 n1 lg1 = Some y"
        by (simp split: if_splits)
      from IH[OF this] y obtain k where "signal_run k w (it1, n1, lg1) = (None, n', lg')"
        by blast
      then have "signal_run (Suc k) w (iter, n, lg) = (None, n', lg')"
        using Some b by simp
      then show ?thesis ..
    qed
  qed
qed

lemma signal_loop_returns_run:
  "signal_loop w iter n lg = Some (Inr (n', lg')) \<Longrightarrow>
     \<exists>k. signal_run k w (iter, n, lg) = (None, n', lg')"
  using signal_loop_returns_run_aux by blast

lemma signal_run_stuck:
  assumes "w < length (n_waiters n)" and "w_next (n_waiters n ! w) = Some j"
    and "a \<noteq> i" and "a \<noteq> j"
  shows "case signal_run k w (Some i, n, lg) of
           (iter, n', lg') \<Rightarrow>
             iter \<noteq> None \<and> w_state (n_waiters n' ! a) = w_state (n_waiters n ! a) \<and>
             n_state n' = n_state n"
  using assms
proof (induction k arbitrary: i n lg)
  case 0
  then show ?case by simp
next
  case (Suc k)
  let ?n' = "n\<lparr>n_waiters := (n_waiters n)[i := (n_waiters n ! i)\<lparr>w_state := kSignaled\<rparr>]\<rparr>"
  have b: "signal_body w i n lg = (Some j, ?n', lg @ [(i, w_state (n_waiters n ! i))])"
    using Suc.prems(2) by (simp add: signal_body_def)
  have 1: "w < length (n_waiters ?n')" using Suc.prems(1) by simp
  have 2: "w_next (n_waiters ?n' ! w) = Some j"
    using Suc.prems(1,2) by (cases "w = i") simp_all
  have 3: "w_state (n_waiters ?n' ! a) = w_state (n_waiters n ! a)"
    using Suc.prems(3) by simp
  from Suc.IH[OF 1 2 Suc.prems(4) Suc.prems(4), of "lg @ [(i, w_state (n_waiters n ! i))]"] 3
  show ?case by (simp add: b split: prod.splits)
qed

section \<open>Properties\<close>

text \<open>
  C10. Construction passes its assertion exactly for capacities up to 65534, and fails
  it for every larger capacity. In a notifier of capacity \<open>N\<close>, \<open>GetWaiter\<close> returns slot
  \<open>idx\<close> for every \<open>idx < N\<close> and \<open>nullptr\<close> for every other index.
\<close>

theorem ctor_capacity_and_GetWaiter:
  "(N \<le> 65534 \<longrightarrow>
      (\<exists>n. Notifier_ctor N = Inr n \<and> length (n_waiters n) = N \<and>
           (\<forall>idx. GetWaiter n idx = (if idx < N then Some idx else None)))) \<and>
   (65534 < N \<longrightarrow> Notifier_ctor N = Inl AssertionFailed)"
  by (auto simp add: Notifier_ctor_def GetWaiter_def kWaiterBits_def)

theorem ctor_capacity_and_GetWaiter_witness:
  "(\<exists>n. Notifier_ctor 2 = Inr n \<and> length (n_waiters n) = 2 \<and>
        GetWaiter n 1 = Some 1 \<and> GetWaiter n 2 = None) \<and>
   Notifier_ctor 65535 = Inl AssertionFailed"
  using ctor_capacity_and_GetWaiter [of 2] ctor_capacity_and_GetWaiter [of 65535]
  by auto

text \<open>
  C4. \<open>CommitWait\<close> on a slot that holds the snapshot of its \<open>PrepareWait\<close>. The expected
  epoch is the epoch field of the snapshot plus one epoch unit for each announced waiter
  that the snapshot counts. When the current epoch is after the expected one in the signed
  comparison, the call returns and the state word is unchanged. When the two are equal and
  a waiter is announced, one transition takes one unit off the prepare count, adds one
  unit to the epoch, stores the previous stack head (\<open>nullptr\<close> for the empty stack) in
  the link of the waiter and makes the index of the waiter the stack head; the caller is
  then parked.
\<close>

theorem CommitWait_compares_and_parks:
  assumes "w < length (n_waiters n)" and "length (n_waiters n) < 65535"
    and "state_invariant n"
  shows
   "expected_epoch (w_epoch (n_waiters n ! w)) =
      (w_epoch (n_waiters n ! w) AND kEpochMask) +
      kEpochInc * of_nat (prepare_count (w_epoch (n_waiters n ! w))) \<and>
    (0 < sint ((n_state n AND kEpochMask) - expected_epoch (w_epoch (n_waiters n ! w))) \<longrightarrow>
       CommitWait w n = Some (Inr (Returned
         (n\<lparr>n_waiters := (n_waiters n)[w := (n_waiters n ! w)\<lparr>w_state := kNotSignaled\<rparr>]\<rparr>)))) \<and>
    (sint ((n_state n AND kEpochMask) - expected_epoch (w_epoch (n_waiters n ! w))) = 0 \<and>
     n_state n AND kWaiterMask \<noteq> 0 \<longrightarrow>
       (\<exists>n'. CommitWait w n = Some (Inr (Parked n')) \<and>
             n_state n' AND kWaiterMask = (n_state n AND kWaiterMask) - kWaiterInc \<and>
             n_state n' AND kEpochMask = (n_state n AND kEpochMask) + kEpochInc \<and>
             n_state n' AND kStackMask = of_nat w \<and>
             stack_head (n_state n') = Some w \<and>
             w_next (n_waiters n' ! w) = stack_head (n_state n) \<and>
             w_state (n_waiters n' ! w) = kWaiting \<and>
             (\<forall>i. i \<noteq> w \<longrightarrow> n_waiters n' ! i = n_waiters n ! i)))"
proof (intro conjI impI)
  let ?e = "expected_epoch (w_epoch (n_waiters n ! w))"
  let ?n0 = "n\<lparr>n_waiters := (n_waiters n)[w := (n_waiters n ! w)\<lparr>w_state := kNotSignaled\<rparr>]\<rparr>"
  show "?e = (w_epoch (n_waiters n ! w) AND kEpochMask) +
      kEpochInc * of_nat (prepare_count (w_epoch (n_waiters n ! w)))"
    by (rule expected_epoch_count)
  have st: "n_state ?n0 = n_state n" by simp
  {
    assume "0 < sint ((n_state n AND kEpochMask) - ?e)"
    then have "0 < sint ((n_state ?n0 AND kEpochMask) - ?e)" by simp
    from CommitWait_loop_returns[OF this, of w] assms(1)
    show "CommitWait w n = Some (Inr (Returned ?n0))" by (simp add: CommitWait_def)
  }
  {
    assume h: "sint ((n_state n AND kEpochMask) - ?e) = 0 \<and> n_state n AND kWaiterMask \<noteq> 0"
    then have eq: "n_state ?n0 AND kEpochMask = ?e" and ne: "n_state ?n0 AND kWaiterMask \<noteq> 0"
      by (simp_all add: sint_zero_iff)
    have hd: "case stack_head (n_state ?n0) of None \<Rightarrow> True | Some h \<Rightarrow> h < length (n_waiters ?n0)"
      using assms(3) by (auto simp: state_invariant_def stack_head_def)
    let ?n1 = "?n0\<lparr>n_waiters := (n_waiters ?n0)[w := (n_waiters ?n0 ! w)\<lparr>w_next := stack_head (n_state ?n0)\<rparr>],
          n_state := ((n_state ?n0 - kWaiterInc + kEpochInc) AND NOT kStackMask) OR of_nat w\<rparr>"
    let ?n' = "?n1\<lparr>n_waiters := (n_waiters ?n1)[w := (n_waiters ?n1 ! w)\<lparr>w_state := kWaiting\<rparr>]\<rparr>"
    have c: "CommitWait w n = Some (Inr (park w ?n1))"
      using CommitWait_loop_parks[OF eq ne hd, of w] assms(1) by (simp add: CommitWait_def)
    have p: "park w ?n1 = Parked ?n'" using assms(1) by (simp add: park_def)
    have w16: "w < 2 ^ 16" using assms(1,2) by simp
    have w15: "w < 65535" using assms(1,2) by simp
    from h have ne': "n_state n AND kWaiterMask \<noteq> 0" by simp
    have s': "n_state ?n' = ((n_state n - kWaiterInc + kEpochInc) AND NOT kStackMask) OR of_nat w"
      by simp
    have "stack_head (n_state ?n') = Some w"
      unfolding s' stack_head_def
      by (simp add: push_word_fields[OF w16] of_nat_not_sentinel[OF w15])
    then show "\<exists>n'. CommitWait w n = Some (Inr (Parked n')) \<and>
             n_state n' AND kWaiterMask = (n_state n AND kWaiterMask) - kWaiterInc \<and>
             n_state n' AND kEpochMask = (n_state n AND kEpochMask) + kEpochInc \<and>
             n_state n' AND kStackMask = of_nat w \<and>
             stack_head (n_state n') = Some w \<and>
             w_next (n_waiters n' ! w) = stack_head (n_state n) \<and>
             w_state (n_waiters n' ! w) = kWaiting \<and>
             (\<forall>i. i \<noteq> w \<longrightarrow> n_waiters n' ! i = n_waiters n ! i)"
      apply (intro exI[of _ ?n'])
      using assms(1)
      apply (simp only: c p s' push_word_fields[OF w16] commit_word_fields[OF ne'])
      apply simp
      done
  }
qed

theorem CommitWait_compares_and_parks_witness:
  "CommitWait 0 resolved4 = Some (Inr (Returned resolved4)) \<and>
   (\<exists>n'. CommitWait 0 announced4 = Some (Inr (Parked n')) \<and>
         n_state n' AND kWaiterMask = 0 \<and>
         n_state n' AND kEpochMask = 0xFFFFFFF800000000 \<and>
         stack_head (n_state n') = Some 0 \<and>
         w_next (n_waiters n' ! 0) = None \<and>
         w_state (n_waiters n' ! 0) = kWaiting)"
proof -
  have a: "0 < length (n_waiters resolved4)" "length (n_waiters resolved4) < 65535"
    "state_invariant resolved4"
    "0 < sint ((n_state resolved4 AND kEpochMask) - expected_epoch (w_epoch (n_waiters resolved4 ! 0)))"
    by (simp_all add: resolved4_def state_invariant_def prepare_count_def expected_epoch_def
          layout_values)
  have b: "0 < length (n_waiters announced4)" "length (n_waiters announced4) < 65535"
    "state_invariant announced4"
    "sint ((n_state announced4 AND kEpochMask) - expected_epoch (w_epoch (n_waiters announced4 ! 0))) = 0"
    "n_state announced4 AND kWaiterMask \<noteq> 0"
    by (simp_all add: announced4_def state_invariant_def prepare_count_def expected_epoch_def
          layout_values)
  have c: "resolved4\<lparr>n_waiters := (n_waiters resolved4)[0 := (n_waiters resolved4 ! 0)\<lparr>w_state := kNotSignaled\<rparr>]\<rparr> = resolved4"
    by (simp add: resolved4_def)
  have d: "(n_state announced4 AND kWaiterMask) - kWaiterInc = 0"
    "(n_state announced4 AND kEpochMask) + kEpochInc = 0xFFFFFFF800000000"
    "stack_head (n_state announced4) = None"
    by (simp_all add: announced4_def layout_values stack_head_def)
  from CommitWait_compares_and_parks [OF a(1,2,3)] a(4) c
  have 1: "CommitWait 0 resolved4 = Some (Inr (Returned resolved4))" by simp
  from CommitWait_compares_and_parks [OF b(1,2,3)] b(4,5) d
  have 2: "(\<exists>n'. CommitWait 0 announced4 = Some (Inr (Parked n')) \<and>
         n_state n' AND kWaiterMask = 0 \<and>
         n_state n' AND kEpochMask = 0xFFFFFFF800000000 \<and>
         stack_head (n_state n') = Some 0 \<and>
         w_next (n_waiters n' ! 0) = None \<and>
         w_state (n_waiters n' ! 0) = kWaiting)" by auto
  from 1 2 show ?thesis by simp
qed

text \<open>
  C3, as the code has it. The transition of \<open>CommitWait\<close> that parks, the transition of
  \<open>CancelWait\<close> that resolves, and the transition of \<open>Notify(false)\<close> that resolves an
  announced waiter each add one unit to the epoch field; the transition of \<open>Notify(true)\<close>
  adds one unit for each announced waiter. Each of them puts the epoch after the old one
  in the signed comparison when a waiter is announced. The transitions of \<open>Notify\<close> that
  only pop parked waiters, with no waiter announced, leave the epoch field as it is.
\<close>

theorem resolving_transitions_and_epoch:
  assumes "w < length (n_waiters n)" and "length (n_waiters n) < 65535"
    and "state_invariant n" and "links_in_range n"
  shows
   "(n_state n AND kEpochMask = expected_epoch (w_epoch (n_waiters n ! w)) \<and>
     n_state n AND kWaiterMask \<noteq> 0 \<longrightarrow>
       (\<exists>n'. CommitWait w n = Some (Inr (Parked n')) \<and>
             n_state n' AND kEpochMask = (n_state n AND kEpochMask) + kEpochInc \<and>
             epoch_after (n_state n') (n_state n)) \<and>
       (\<exists>n'. CancelWait w n = Some (Inr n') \<and>
             n_state n' AND kEpochMask = (n_state n AND kEpochMask) + kEpochInc \<and>
             epoch_after (n_state n') (n_state n))) \<and>
    (n_state n AND kWaiterMask \<noteq> 0 \<longrightarrow>
       (\<exists>s'. Notify_new_state False (n_state n) n = Inr s' \<and>
             s' AND kEpochMask = (n_state n AND kEpochMask) + kEpochInc \<and>
             epoch_after s' (n_state n)) \<and>
       (\<exists>s'. Notify_new_state True (n_state n) n = Inr s' \<and>
             s' AND kEpochMask = (n_state n AND kEpochMask) +
                                  kEpochInc * of_nat (prepare_count (n_state n)) \<and>
             epoch_after s' (n_state n))) \<and>
    (n_state n AND kWaiterMask = 0 \<and> n_state n AND kStackMask \<noteq> kStackMask \<longrightarrow>
       (\<exists>s'. Notify_new_state False (n_state n) n = Inr s' \<and>
             s' AND kEpochMask = n_state n AND kEpochMask \<and>
             \<not> epoch_after s' (n_state n)) \<and>
       (\<exists>s'. Notify_new_state True (n_state n) n = Inr s' \<and>
             s' AND kEpochMask = n_state n AND kEpochMask \<and>
             \<not> epoch_after s' (n_state n)))"
proof (intro conjI impI)
  let ?s = "n_state n"
  have hd: "case stack_head ?s of None \<Rightarrow> True | Some h \<Rightarrow> h < length (n_waiters n)"
    using assms(3) by (auto simp: state_invariant_def stack_head_def)
  have w16: "w < 2 ^ 16" using assms(1,2) by simp
  {
    assume h: "?s AND kEpochMask = expected_epoch (w_epoch (n_waiters n ! w)) \<and> ?s AND kWaiterMask \<noteq> 0"
    then have eq: "?s AND kEpochMask = expected_epoch (w_epoch (n_waiters n ! w))"
      and ne: "?s AND kWaiterMask \<noteq> 0" by simp_all
    have e: "(((?s - kWaiterInc + kEpochInc) AND NOT kStackMask) OR of_nat w) AND kEpochMask
              = (?s AND kEpochMask) + kEpochInc"
      by (simp only: push_word_fields[OF w16] commit_word_fields[OF ne])
    show "\<exists>n'. CommitWait w n = Some (Inr (Parked n')) \<and>
             n_state n' AND kEpochMask = (?s AND kEpochMask) + kEpochInc \<and>
             epoch_after (n_state n') ?s"
      using CommitWait_parks[OF assms(1) eq ne hd] e epoch_after_unit[OF e] by simp
    show "\<exists>n'. CancelWait w n = Some (Inr n') \<and>
             n_state n' AND kEpochMask = (?s AND kEpochMask) + kEpochInc \<and>
             epoch_after (n_state n') ?s"
      using CancelWait_resolves[OF assms(1) eq ne] commit_word_fields(1)[OF ne]
        epoch_after_unit[OF commit_word_fields(1)[OF ne]] by simp
  }
  {
    assume ne: "?s AND kWaiterMask \<noteq> 0"
    have 1: "Notify_new_state False ?s n = Inr (?s + kEpochInc - kWaiterInc)"
      unfolding Notify_new_state_def Let_def waiters_pos_iff using ne by simp
    show "\<exists>s'. Notify_new_state False ?s n = Inr s' \<and>
             s' AND kEpochMask = (?s AND kEpochMask) + kEpochInc \<and> epoch_after s' ?s"
      using 1 notify_one_word_fields(1)[OF ne] epoch_after_unit[OF notify_one_word_fields(1)[OF ne]]
      by simp
    let ?t = "(?s AND kEpochMask) + kEpochInc * of_nat (prepare_count ?s) + kStackMask"
    have 2: "Notify_new_state True ?s n = Inr ?t"
      unfolding Notify_new_state_def Let_def waiters_word by simp
    have 3: "?t AND kEpochMask = (?s AND kEpochMask) + kEpochInc * of_nat (prepare_count ?s)"
      by (rule notify_word_fields) simp
    have "0 < prepare_count ?s" using ne prepare_count_0_iff[of ?s] by auto
    from epoch_after_units[OF 3 this prepare_count_less]
    show "\<exists>s'. Notify_new_state True ?s n = Inr s' \<and>
             s' AND kEpochMask = (?s AND kEpochMask) + kEpochInc * of_nat (prepare_count ?s) \<and>
             epoch_after s' ?s"
      using 2 3 by simp
  }
  {
    assume h: "?s AND kWaiterMask = 0 \<and> ?s AND kStackMask \<noteq> kStackMask"
    then have z: "?s AND kWaiterMask = 0" and ne: "?s AND kStackMask \<noteq> kStackMask" by simp_all
    from ne assms(3) have v: "unat (?s AND kStackMask) < length (n_waiters n)"
      by (simp add: state_invariant_def)
    let ?x = "case w_next (n_waiters n ! unat (?s AND kStackMask)) of
                None \<Rightarrow> kStackMask | Some j \<Rightarrow> (of_nat j :: u64)"
    have 1: "Notify_new_state False ?s n = Inr ((?s AND kEpochMask) + ?x)"
      unfolding Notify_new_state_def Let_def waiters_pos_iff using z v by simp
    have "case w_next (n_waiters n ! unat (?s AND kStackMask)) of
            None \<Rightarrow> True | Some j \<Rightarrow> j < 65535"
      using links_in_rangeD[OF assms(4) v] assms(2) by (auto split: option.splits)
    then have x: "?x AND kStackMask = ?x" by (rule next_word_stack_only)
    have "((?s AND kEpochMask) + kEpochInc * 0 + ?x) AND kEpochMask
            = (?s AND kEpochMask) + kEpochInc * 0"
      using x by (rule notify_word_fields)
    then have 2: "((?s AND kEpochMask) + ?x) AND kEpochMask = ?s AND kEpochMask" by simp
    show "\<exists>s'. Notify_new_state False ?s n = Inr s' \<and>
             s' AND kEpochMask = ?s AND kEpochMask \<and> \<not> epoch_after s' ?s"
      using 1 2 epoch_after_irrefl[OF 2] by simp
    have pz: "prepare_count ?s = 0" using z by (simp add: prepare_count_0_iff)
    have 3: "Notify_new_state True ?s n = Inr ((?s AND kEpochMask) + kStackMask)"
      unfolding Notify_new_state_def Let_def waiters_word by (simp add: pz)
    have "((?s AND kEpochMask) + kEpochInc * 0 + kStackMask) AND kEpochMask
            = (?s AND kEpochMask) + kEpochInc * 0"
      by (rule notify_word_fields) simp
    then have 4: "((?s AND kEpochMask) + kStackMask) AND kEpochMask = ?s AND kEpochMask" by simp
    show "\<exists>s'. Notify_new_state True ?s n = Inr s' \<and>
             s' AND kEpochMask = ?s AND kEpochMask \<and> \<not> epoch_after s' ?s"
      using 3 4 epoch_after_irrefl[OF 4] by simp
  }
qed

theorem resolving_transitions_and_epoch_witness:
  "(\<exists>n'. CommitWait 0 announced4 = Some (Inr (Parked n')) \<and>
         epoch_after (n_state n') (n_state announced4)) \<and>
   (\<exists>n'. CancelWait 0 announced4 = Some (Inr n') \<and>
         epoch_after (n_state n') (n_state announced4)) \<and>
   (\<exists>s'. Notify_new_state False (n_state announced4) announced4 = Inr s' \<and>
         epoch_after s' (n_state announced4)) \<and>
   (\<exists>s'. Notify_new_state True (n_state announced4) announced4 = Inr s' \<and>
         epoch_after s' (n_state announced4)) \<and>
   (\<exists>s'. Notify_new_state False (n_state parked4_1) parked4_1 = Inr s' \<and>
         \<not> epoch_after s' (n_state parked4_1))"
proof -
  have a: "0 < length (n_waiters announced4)" "length (n_waiters announced4) < 65535"
    "state_invariant announced4" "links_in_range announced4"
    "n_state announced4 AND kEpochMask = expected_epoch (w_epoch (n_waiters announced4 ! 0))"
    "n_state announced4 AND kWaiterMask \<noteq> 0"
    by (simp_all add: announced4_def state_invariant_def links_in_range_def prepare_count_def
          expected_epoch_def fresh_def layout_values)
  have b: "0 < length (n_waiters parked4_1)" "length (n_waiters parked4_1) < 65535"
    "state_invariant parked4_1" "links_in_range parked4_1"
    "n_state parked4_1 AND kWaiterMask = 0" "n_state parked4_1 AND kStackMask \<noteq> kStackMask"
    by (simp_all add: parked4_1_def state_invariant_def links_in_range_def prepare_count_def
          fresh_def layout_values)
  from resolving_transitions_and_epoch [OF a(1,2,3,4)] a(5,6)
    resolving_transitions_and_epoch [OF b(1,2,3,4)] b(5,6)
  show ?thesis by blast
qed

text \<open>
  C3 as the specification states it fails for the branch of \<open>Notify(false)\<close> that
  pops a parked waiter: in
  \<open>parked4_1\<close> the call pops and signals slot 0, and the epoch of the new state word is
  not after the epoch of the old one.
\<close>

theorem Notify_false_pop_counterexample:
  "Notify False parked4_1 = Some (Inr (woken4_1, [(0, kWaiting)])) \<and>
   \<not> epoch_after (n_state woken4_1) (n_state parked4_1)"
proof -
  have 1: "n_state parked4_1 AND kWaiterMask = 0" "stack_head (n_state parked4_1) = Some 0"
    "0 < length (n_waiters parked4_1)"
    by (simp_all add: parked4_1_def stack_head_def layout_values)
  have "Notify False parked4_1 = Some (Inr (woken4_1, [(0, kWaiting)]))"
    unfolding Notify_false_pop[OF 1] by (simp add: parked4_1_def woken4_1_def layout_values fresh_def)
  moreover have "\<not> epoch_after (n_state woken4_1) (n_state parked4_1)"
    by (simp add: epoch_after_def parked4_1_def woken4_1_def layout_values)
  ultimately show ?thesis by simp
qed

text \<open>
  C5, as the code has it. In a state where no waiter is announced, \<open>PrepareWait\<close> followed
  by \<open>CancelWait\<close> on the same slot, with nothing in between, returns and leaves the
  capacity, the stack head, the prepare count, and the link and state of every slot as
  they were; the epoch is one unit higher. In a state where another waiter is announced,
  \<open>CancelWait\<close> yields for as long as that waiter is not resolved, and the prepare count
  stays one higher.
\<close>

theorem PrepareWait_then_CancelWait:
  assumes "w < length (n_waiters n)"
  shows
   "(prepare_count (n_state n) = 0 \<longrightarrow>
       (\<exists>n1 n2. PrepareWait w n = Inr n1 \<and> CancelWait w n1 = Some (Inr n2) \<and>
                length (n_waiters n2) = length (n_waiters n) \<and>
                n_state n2 AND kStackMask = n_state n AND kStackMask \<and>
                stack_head (n_state n2) = stack_head (n_state n) \<and>
                prepare_count (n_state n2) = prepare_count (n_state n) \<and>
                n_state n2 = n_state n + kEpochInc \<and>
                (\<forall>i. w_next (n_waiters n2 ! i) = w_next (n_waiters n ! i) \<and>
                     w_state (n_waiters n2 ! i) = w_state (n_waiters n ! i)))) \<and>
    (0 < prepare_count (n_state n) \<and> prepare_count (n_state n) < 65535 \<longrightarrow>
       (\<exists>n1. PrepareWait w n = Inr n1 \<and> CancelWait w n1 = None \<and>
             prepare_count (n_state n1) = prepare_count (n_state n) + 1))"
proof (intro conjI impI)
  let ?s = "n_state n"
  let ?n1 = "n\<lparr>n_waiters := (n_waiters n)[w := (n_waiters n ! w)\<lparr>w_epoch := ?s\<rparr>],
               n_state := ?s + kWaiterInc\<rparr>"
  have p: "PrepareWait w n = Inr ?n1" using assms by (simp add: PrepareWait_def)
  have snap: "w_epoch (n_waiters ?n1 ! w) = ?s" using assms by simp
  have w1: "w < length (n_waiters ?n1)" using assms by simp
  {
    assume z: "prepare_count ?s = 0"
    then have lt: "prepare_count ?s < 65535" by simp
    from z have zw: "?s AND kWaiterMask = 0" by (simp add: prepare_count_0_iff)
    have eq: "n_state ?n1 AND kEpochMask = expected_epoch (w_epoch (n_waiters ?n1 ! w))"
      unfolding snap using prepare_word_fields(1)[OF lt] by (simp add: expected_epoch_count z)
    have ne: "n_state ?n1 AND kWaiterMask \<noteq> 0"
      using prepare_word_fields(2)[OF lt] zw by (simp add: kWaiterInc_def kWaiterBits_def)
    let ?n2 = "?n1\<lparr>n_state := n_state ?n1 - kWaiterInc + kEpochInc\<rparr>"
    have c: "CancelWait w ?n1 = Some (Inr ?n2)" by (rule CancelWait_resolves[OF w1 eq ne])
    have s2: "n_state ?n2 = ?s + kEpochInc" by simp
    have f: "(?s + kEpochInc) AND kStackMask = ?s AND kStackMask"
      "(?s + kEpochInc) AND kWaiterMask = ?s AND kWaiterMask"
    proof -
      have e: "?s + kEpochInc = (?s + kWaiterInc) - kWaiterInc + kEpochInc" by simp
      have ne': "(?s + kWaiterInc) AND kWaiterMask \<noteq> 0" using ne by simp
      show "(?s + kEpochInc) AND kStackMask = ?s AND kStackMask"
        unfolding e commit_word_fields(3)[OF ne'] by (rule prepare_word_fields(3)[OF lt])
      show "(?s + kEpochInc) AND kWaiterMask = ?s AND kWaiterMask"
        unfolding e commit_word_fields(2)[OF ne'] prepare_word_fields(2)[OF lt] by simp
    qed
    have pc: "prepare_count (?s + kEpochInc) = prepare_count ?s"
      by (simp add: prepare_count_def f)
    have sh: "stack_head (?s + kEpochInc) = stack_head ?s"
      by (simp add: stack_head_def f)
    have ws: "w_next (n_waiters ?n2 ! i) = w_next (n_waiters n ! i) \<and>
              w_state (n_waiters ?n2 ! i) = w_state (n_waiters n ! i)" for i
      by (cases "i = w") (use assms in simp_all)
    show "\<exists>n1 n2. PrepareWait w n = Inr n1 \<and> CancelWait w n1 = Some (Inr n2) \<and>
                length (n_waiters n2) = length (n_waiters n) \<and>
                n_state n2 AND kStackMask = ?s AND kStackMask \<and>
                stack_head (n_state n2) = stack_head ?s \<and>
                prepare_count (n_state n2) = prepare_count ?s \<and>
                n_state n2 = ?s + kEpochInc \<and>
                (\<forall>i. w_next (n_waiters n2 ! i) = w_next (n_waiters n ! i) \<and>
                     w_state (n_waiters n2 ! i) = w_state (n_waiters n ! i))"
      apply (rule exI[of _ ?n1], rule exI[of _ ?n2])
      apply (intro conjI allI)
      apply (rule p, rule c)
      apply (simp, simp only: s2 f, simp only: s2 sh, simp only: s2 pc, rule s2)
      using ws apply blast+
      done
  }
  {
    assume h: "0 < prepare_count ?s \<and> prepare_count ?s < 65535"
    then have lt: "prepare_count ?s < 65535" and lt': "prepare_count ?s < 65536"
      and pos: "0 < prepare_count ?s" by simp_all
    have "sint ((n_state ?n1 AND kEpochMask) - expected_epoch (w_epoch (n_waiters ?n1 ! w))) < 0"
      unfolding snap using PrepareWait_then_epochs[OF lt] sint_neg_epoch_units[OF lt'] pos by simp
    then have c: "CancelWait w ?n1 = None" by (rule CancelWait_spins[OF w1])
    have "prepare_count (n_state ?n1) = prepare_count ?s + 1"
      using prepare_count_Suc[OF lt] by simp
    with p c show "\<exists>n1. PrepareWait w n = Inr n1 \<and> CancelWait w n1 = None \<and>
             prepare_count (n_state n1) = prepare_count (n_state n) + 1" by blast
  }
qed

theorem PrepareWait_then_CancelWait_witness:
  "(\<exists>n1 n2. PrepareWait 0 idle4 = Inr n1 \<and> CancelWait 0 n1 = Some (Inr n2) \<and>
            length (n_waiters n2) = 4 \<and> stack_head (n_state n2) = None \<and>
            prepare_count (n_state n2) = 0 \<and> n_state n2 = n_state idle4 + kEpochInc) \<and>
   (\<exists>n1. PrepareWait 1 announced4 = Inr n1 \<and> CancelWait 1 n1 = None \<and>
         prepare_count (n_state n1) = 2)"
proof -
  have a: "0 < length (n_waiters idle4)" "prepare_count (n_state idle4) = 0"
    "length (n_waiters idle4) = 4" "stack_head (n_state idle4) = None"
    by (simp_all add: idle4_def prepare_count_def stack_head_def layout_values)
  have b: "1 < length (n_waiters announced4)" "prepare_count (n_state announced4) = 1"
    by (simp_all add: announced4_def prepare_count_def layout_values)
  from PrepareWait_then_CancelWait [OF a(1)] a(2,3,4)
  have 1: "\<exists>n1 n2. PrepareWait 0 idle4 = Inr n1 \<and> CancelWait 0 n1 = Some (Inr n2) \<and>
            length (n_waiters n2) = 4 \<and> stack_head (n_state n2) = None \<and>
            prepare_count (n_state n2) = 0 \<and> n_state n2 = n_state idle4 + kEpochInc"
    by (auto simp del: One_nat_def)
  from PrepareWait_then_CancelWait [OF b(1)] b(2)
  have 2: "\<exists>n1. PrepareWait 1 announced4 = Inr n1 \<and> CancelWait 1 n1 = None \<and>
         prepare_count (n_state n1) = 2"
    by auto
  from 1 2 show ?thesis by blast
qed

text \<open>
  C5 as the specification states it fails where another waiter is announced and not yet
  resolved: after
  \<open>Notifier(4)\<close> and \<open>PrepareWait\<close> on slot 0, the calls \<open>PrepareWait\<close> and \<open>CancelWait\<close>
  on slot 1 do not restore the prepare count, since \<open>CancelWait\<close> yields and reads the
  same state word again for as long as slot 0 stays announced.
\<close>

theorem CancelWait_behind_announced_counterexample:
  "Notifier_ctor 4 = Inr idle4 \<and> PrepareWait 0 idle4 = Inr announced4 \<and>
   PrepareWait 1 announced4 = Inr announced4_twice \<and>
   CancelWait 1 announced4_twice = None \<and>
   prepare_count (n_state announced4) = 1 \<and> prepare_count (n_state announced4_twice) = 2"
proof -
  have c: "CancelWait 1 announced4_twice = None"
    by (rule CancelWait_spins)
       (simp_all add: announced4_twice_def expected_epoch_def layout_values)
  have p: "prepare_count (n_state announced4) = 1"
    "prepare_count (n_state announced4_twice) = 2"
    by (simp_all add: announced4_def announced4_twice_def prepare_count_def layout_values)
  show ?thesis
    by (intro conjI idle4_reached announced4_reached announced4_twice_reached c p)
qed

text \<open>
  C6. Starting with no waiter parked or announced, the threads of the distinct slots \<open>ps\<close>
  park one after the other; the prepare count is then zero and the park stack holds the
  slots, the last one parked on top. Then \<open>j\<close> successive calls of \<open>Notify(false)\<close>, for
  every \<open>j\<close> up to the number of parked waiters, signal exactly the top \<open>j\<close> slots of
  the stack, each once and each found waiting, the most recently parked first; the other
  slots stay on the stack, still waiting. So each call pops the top of the stack and
  signals that slot only, and after as many calls as there are waiters the stack is empty.
\<close>

theorem Notify_false_wakes_LIFO:
  assumes "stack_head (n_state n0) = None" and "n_state n0 AND kWaiterMask = 0"
    and "length (n_waiters n0) < 65535"
    and "distinct ps" and "\<forall>p \<in> set ps. p < length (n_waiters n0)"
    and "j \<le> length ps"
  shows "\<exists>n n'. park_all ps n0 = Some n \<and>
           n_state n AND kWaiterMask = 0 \<and>
           stack_chain (n_waiters n) (stack_head (n_state n)) (rev ps) \<and>
           Notify_false_times j n =
             Some (Inr (n', map (\<lambda>x. (x, kWaiting)) (take j (rev ps)))) \<and>
           stack_chain (n_waiters n') (stack_head (n_state n')) (drop j (rev ps)) \<and>
           (\<forall>x \<in> set (take j (rev ps)). w_state (n_waiters n' ! x) = kSignaled) \<and>
           (\<forall>x \<in> set (drop j (rev ps)). w_state (n_waiters n' ! x) = kWaiting) \<and>
           (j = length ps \<longrightarrow> stack_head (n_state n') = None)"
proof -
  have c0: "stack_chain (n_waiters n0) (stack_head (n_state n0)) []"
    using assms(1) by simp
  have d0: "distinct (ps @ [])" using assms(4) by simp
  from park_all_chain[OF c0 assms(2,3) d0 assms(5)] obtain n where
    p: "park_all ps n0 = Some n"
    and c: "stack_chain (n_waiters n) (stack_head (n_state n)) (rev ps)"
    and z: "n_state n AND kWaiterMask = 0"
    and l: "length (n_waiters n) = length (n_waiters n0)"
    and k: "\<forall>q \<in> set ps. w_state (n_waiters n ! q) = kWaiting"
    by auto
  have d: "distinct (rev ps)" using assms(4) by simp
  have l': "length (n_waiters n) < 65535" using l assms(3) by simp
  have j: "j \<le> length (rev ps)" using assms(6) by simp
  from Notify_false_times_chain[OF c d z l' j] obtain n' where
    r: "Notify_false_times j n =
          Some (Inr (n', map (\<lambda>x. (x, w_state (n_waiters n ! x))) (take j (rev ps))))"
    and c': "stack_chain (n_waiters n') (stack_head (n_state n')) (drop j (rev ps))"
    and sg: "\<forall>x. x \<in> set (take j (rev ps)) \<longrightarrow> w_state (n_waiters n' ! x) = kSignaled"
    and un: "\<forall>i. i \<notin> set (take j (rev ps)) \<longrightarrow> n_waiters n' ! i = n_waiters n ! i"
    by blast
  have m: "map (\<lambda>x. (x, w_state (n_waiters n ! x))) (take j (rev ps))
         = map (\<lambda>x. (x, kWaiting)) (take j (rev ps))"
  proof (rule map_cong[OF refl])
    fix x assume "x \<in> set (take j (rev ps))"
    then have "x \<in> set ps" by (auto dest: in_set_takeD)
    with k show "(x, w_state (n_waiters n ! x)) = (x, kWaiting)" by simp
  qed
  have w: "\<forall>x \<in> set (drop j (rev ps)). w_state (n_waiters n' ! x) = kWaiting"
  proof
    fix x assume x: "x \<in> set (drop j (rev ps))"
    have "set (take j (rev ps)) \<inter> set (drop j (rev ps)) = {}"
      using d by (metis append_take_drop_id distinct_append)
    with x have "x \<notin> set (take j (rev ps))" by auto
    with un have "n_waiters n' ! x = n_waiters n ! x" by simp
    moreover from x have "x \<in> set ps" by (auto dest: in_set_dropD)
    ultimately show "w_state (n_waiters n' ! x) = kWaiting" using k by simp
  qed
  have e: "j = length ps \<longrightarrow> stack_head (n_state n') = None"
    using c' by (auto simp: stack_chain_Nil)
  from p z c r[unfolded m] c' sg w e show ?thesis by blast
qed

theorem Notify_false_wakes_LIFO_witness:
  "\<exists>n n'. park_all [0, 1, 2] idle4 = Some n \<and>
     Notify_false_times 3 n =
       Some (Inr (n', [(2, kWaiting), (1, kWaiting), (0, kWaiting)])) \<and>
     stack_head (n_state n') = None \<and>
     w_state (n_waiters n' ! 0) = kSignaled \<and> w_state (n_waiters n' ! 1) = kSignaled \<and>
     w_state (n_waiters n' ! 2) = kSignaled"
proof -
  have a: "stack_head (n_state idle4) = None" "n_state idle4 AND kWaiterMask = 0"
    "length (n_waiters idle4) < 65535" "distinct [0, 1, 2 :: nat]"
    "\<forall>p \<in> set [0, 1, 2]. p < length (n_waiters idle4)" "3 \<le> length [0, 1, 2 :: nat]"
    by (simp_all add: idle4_def stack_head_def layout_values)
  from Notify_false_wakes_LIFO [OF a] show ?thesis
    by (auto simp: numeral_3_eq_3)
qed

text \<open>
  C7. \<open>NotifyN\<close> of the source agrees with the specification's wording of it on every
  count and every notifier: it is \<open>Notify(true)\<close> when the count reaches the capacity and
  that many successive calls of \<open>Notify(false)\<close> otherwise. In a notifier whose state word
  satisfies its invariant, \<open>NotifyN(0)\<close> returns with the notifier unchanged and nothing
  signalled.
\<close>

theorem NotifyN_refines_spec:
  "NotifyN k n = NotifyN_spec k n \<and>
   (length (n_waiters n) \<le> k \<longrightarrow> NotifyN k n = Notify True n) \<and>
   (k < length (n_waiters n) \<longrightarrow> NotifyN k n = Notify_false_times k n) \<and>
   (state_invariant n \<longrightarrow> NotifyN 0 n = Some (Inr (n, [])))"
proof (intro conjI impI)
  have t: "NotifyN_loop 0 k n [] = Notify_false_times k n"
    by (simp add: NotifyN_loop_times split: option.splits sum.splits prod.splits)
  show "NotifyN k n = NotifyN_spec k n"
    by (simp add: NotifyN_def NotifyN_spec_def t)
  show "NotifyN k n = Notify True n" if "length (n_waiters n) \<le> k"
    using that by (simp add: NotifyN_def)
  show "NotifyN k n = Notify_false_times k n" if "k < length (n_waiters n)"
    using that by (simp add: NotifyN_def t)
  have t: "NotifyN_loop 0 0 n [] = Some (Inr (n, []))"
    by (simp add: NotifyN_loop_times)
  show "NotifyN 0 n = Some (Inr (n, []))" if inv: "state_invariant n"
  proof (cases "length (n_waiters n) = 0")
    case False
    then show ?thesis by (simp add: NotifyN_def t)
  next
    case True
    with inv have "n_state n AND kStackMask = kStackMask" and "prepare_count (n_state n) = 0"
      by (simp_all add: state_invariant_def)
    then have "Notify True n = Some (Inr (n, []))"
      by (simp add: Notify_nothing_to_do prepare_count_0_iff)
    with True show ?thesis by (simp add: NotifyN_def)
  qed
qed

theorem NotifyN_refines_spec_witness:
  "NotifyN 4 idle4 = Notify True idle4 \<and>
   NotifyN 2 parked4_3 = Notify_false_times 2 parked4_3 \<and>
   NotifyN 0 parked4_3 = Some (Inr (parked4_3, []))"
proof -
  have a: "length (n_waiters idle4) \<le> 4" "2 < length (n_waiters parked4_3)"
    "state_invariant parked4_3"
    by (simp_all add: idle4_def parked4_3_def state_invariant_def prepare_count_def layout_values)
  from NotifyN_refines_spec [of 4 idle4] NotifyN_refines_spec [of 2 parked4_3]
    NotifyN_refines_spec [of 0 parked4_3] a
  show ?thesis by blast
qed

text \<open>
  C9. The assertion of the destructor fails exactly when the prepare count is not zero or
  the stack head is not the sentinel. After construction with a capacity that passes the
  constructor, when the threads of any distinct slots have parked one after the other and
  as many calls of \<open>Notify(false)\<close> have followed, the assertion holds, as it does right
  after construction. With one waiter announced and neither committed nor cancelled, it
  fails.
\<close>

theorem dtor_asserts_no_waiter_left:
  "(Notifier_dtor n = Inl AssertionFailed \<longleftrightarrow>
      n_state n AND kWaiterMask \<noteq> 0 \<or> n_state n AND kStackMask \<noteq> kStackMask) \<and>
   (Notifier_dtor n = Inl AssertionFailed \<longleftrightarrow>
      prepare_count (n_state n) \<noteq> 0 \<or> stack_head (n_state n) \<noteq> None) \<and>
   (N < 65535 \<and> distinct ps \<and> (\<forall>p \<in> set ps. p < N) \<longrightarrow>
      (\<exists>n0 n1 lg n2. Notifier_ctor N = Inr n0 \<and> park_all ps n0 = Some n1 \<and>
         Notify_false_times (length ps) n1 = Some (Inr (n2, lg)) \<and>
         Notifier_dtor n0 = Inr () \<and> Notifier_dtor n2 = Inr ())) \<and>
   (N < 65535 \<and> w < N \<longrightarrow>
      (\<exists>n0 n1. Notifier_ctor N = Inr n0 \<and> PrepareWait w n0 = Inr n1 \<and>
         Notifier_dtor n1 = Inl AssertionFailed))"
proof (intro conjI impI)
  have d: "Notifier_dtor n = Inl AssertionFailed \<longleftrightarrow> Notifier_dtor n \<noteq> Inr ()"
    by (simp add: Notifier_dtor_def)
  show "Notifier_dtor n = Inl AssertionFailed \<longleftrightarrow>
      n_state n AND kWaiterMask \<noteq> 0 \<or> n_state n AND kStackMask \<noteq> kStackMask"
    unfolding d dtor_passes_iff by blast
  show "Notifier_dtor n = Inl AssertionFailed \<longleftrightarrow>
      prepare_count (n_state n) \<noteq> 0 \<or> stack_head (n_state n) \<noteq> None"
    unfolding d dtor_passes_iff prepare_count_0_iff stack_head_None by blast
next
  assume h: "N < 65535 \<and> distinct ps \<and> (\<forall>p \<in> set ps. p < N)"
  then have N: "N < 65535" and dist: "distinct ps" and r: "\<forall>p \<in> set ps. p < N" by simp_all
  from ctor_idle[OF N] obtain n0 where c: "Notifier_ctor N = Inr n0"
    and l0: "length (n_waiters n0) = N" and h0: "stack_head (n_state n0) = None"
    and z0: "n_state n0 AND kWaiterMask = 0" by blast
  have c0: "stack_chain (n_waiters n0) (stack_head (n_state n0)) []" using h0 by simp
  have d0: "distinct (ps @ [])" using dist by simp
  have l0': "length (n_waiters n0) < 65535" using l0 N by simp
  have r0: "\<forall>p \<in> set ps. p < length (n_waiters n0)" using r l0 by simp
  from park_all_chain[OF c0 z0 l0' d0 r0] obtain n1 where
    p: "park_all ps n0 = Some n1"
    and c1: "stack_chain (n_waiters n1) (stack_head (n_state n1)) (rev ps)"
    and z1: "n_state n1 AND kWaiterMask = 0"
    and l1: "length (n_waiters n1) = length (n_waiters n0)"
    by auto
  have d1: "distinct (rev ps)" using dist by simp
  have l1': "length (n_waiters n1) < 65535" using l1 l0' by simp
  have j: "length ps \<le> length (rev ps)" by simp
  from Notify_false_times_chain[OF c1 d1 z1 l1' j] obtain n2 where
    t: "Notify_false_times (length ps) n1 =
          Some (Inr (n2, map (\<lambda>x. (x, w_state (n_waiters n1 ! x))) (take (length ps) (rev ps))))"
    and c2: "stack_chain (n_waiters n2) (stack_head (n_state n2)) (drop (length ps) (rev ps))"
    and z2: "n_state n2 AND kWaiterMask = 0"
    by blast
  from c2 have h2: "stack_head (n_state n2) = None" by (simp add: stack_chain_Nil)
  have "Notifier_dtor n0 = Inr ()" using h0 z0 by (simp add: dtor_passes_iff stack_head_None)
  moreover have "Notifier_dtor n2 = Inr ()" using h2 z2 by (simp add: dtor_passes_iff stack_head_None)
  ultimately show "\<exists>n0 n1 lg n2. Notifier_ctor N = Inr n0 \<and> park_all ps n0 = Some n1 \<and>
         Notify_false_times (length ps) n1 = Some (Inr (n2, lg)) \<and>
         Notifier_dtor n0 = Inr () \<and> Notifier_dtor n2 = Inr ()"
    using c p t by blast
next
  assume h: "N < 65535 \<and> w < N"
  then have N: "N < 65535" and w: "w < N" by simp_all
  from ctor_idle[OF N] obtain n0 where c: "Notifier_ctor N = Inr n0"
    and l0: "length (n_waiters n0) = N" and z0: "n_state n0 AND kWaiterMask = 0" by blast
  let ?n1 = "n0\<lparr>n_waiters := (n_waiters n0)[w := (n_waiters n0 ! w)\<lparr>w_epoch := n_state n0\<rparr>],
               n_state := n_state n0 + kWaiterInc\<rparr>"
  have p: "PrepareWait w n0 = Inr ?n1" using w l0 by (simp add: PrepareWait_def)
  have "prepare_count (n_state n0) < 65535" using z0 by (simp add: prepare_count_def)
  from prepare_word_fields(2)[OF this] z0
  have "n_state ?n1 AND kWaiterMask \<noteq> 0" by (simp add: kWaiterInc_def kWaiterBits_def)
  then have "Notifier_dtor ?n1 = Inl AssertionFailed"
    by (simp add: Notifier_dtor_def dtor_test_iff)
  with c p show "\<exists>n0 n1. Notifier_ctor N = Inr n0 \<and> PrepareWait w n0 = Inr n1 \<and>
         Notifier_dtor n1 = Inl AssertionFailed" by blast
qed

theorem dtor_asserts_no_waiter_left_witness:
  "Notifier_dtor announced4 = Inl AssertionFailed \<and>
   Notifier_dtor parked4_1 = Inl AssertionFailed \<and>
   (\<exists>n0 n1 lg n2. Notifier_ctor 4 = Inr n0 \<and> park_all [0, 1, 2, 3] n0 = Some n1 \<and>
      Notify_false_times 4 n1 = Some (Inr (n2, lg)) \<and> Notifier_dtor n2 = Inr ()) \<and>
   (\<exists>n0 n1. Notifier_ctor 4 = Inr n0 \<and> PrepareWait 0 n0 = Inr n1 \<and>
      Notifier_dtor n1 = Inl AssertionFailed)"
proof -
  have a: "n_state announced4 AND kWaiterMask \<noteq> 0"
    "n_state parked4_1 AND kStackMask \<noteq> kStackMask"
    by (simp_all add: announced4_def parked4_1_def layout_values)
  have b: "(4::nat) < 65535 \<and> distinct [0, 1, 2, 3 :: nat] \<and> (\<forall>p \<in> set [0, 1, 2, 3 :: nat]. p < 4)"
    "(4::nat) < 65535 \<and> (0::nat) < 4" "length [0, 1, 2, 3 :: nat] = 4"
    by simp_all
  from dtor_asserts_no_waiter_left [of announced4 4 "[0, 1, 2, 3]" 0]
    dtor_asserts_no_waiter_left [of parked4_1 4 "[0, 1, 2, 3]" 0] a b
  show ?thesis by (simp only: simp_thms) blast
qed

text \<open>
  C1, at a state where the code departs from it. Capacity 4; the threads of slots 0, 1
  and 2 have parked in this order and slot 3 is announced. \<open>Notify(true)\<close> computes the
  state word the specification describes (the epoch one unit higher for the one announced waiter,
  the prepare count zero, the stack head the sentinel), but the call never returns: its
  loop reads the successor from the first node in every iteration.
\<close>

theorem Notify_all_parked3_announced1:
  "park_all [0, 1, 2] idle4 = Some parked4_3 \<and>
   PrepareWait 3 parked4_3 = Inr parked4_3_announced \<and>
   Notify_new_state True (n_state parked4_3_announced) parked4_3_announced
     = Inr 0xFFFFFFFB0000FFFF \<and>
   Notify True parked4_3_announced = None"
proof -
  have s: "stack_head (n_state parked4_3_announced) = Some 2"
    "2 < length (n_waiters parked4_3_announced)"
    "w_next (n_waiters parked4_3_announced ! 2) = Some 1"
    "1 < length (n_waiters parked4_3_announced)"
    by (simp_all add: parked4_3_announced_def stack_head_def layout_values)
  have n: "Notify_new_state True (n_state parked4_3_announced) parked4_3_announced
             = Inr 0xFFFFFFFB0000FFFF"
    by (simp add: Notify_new_state_def parked4_3_announced_def layout_values)
  show ?thesis
    by (intro conjI park_all_three parked4_3_announced_reached n Notify_true_diverges[OF s])
qed

text \<open>
  C2, at a state where the code departs from it. Capacity 4; the threads of slots 0 and 1
  have parked in this order, so the popped chain has the two nodes 1 and 0. After the
  compare-and-swap of \<open>Notify(true)\<close> the signalling loop starts at node 1 and never
  ends, and so \<open>Notify(true)\<close> never returns.
\<close>

theorem signal_loop_parked2_never_ends:
  "park_all [0, 1] idle4 = Some parked4_2 \<and>
   Notify_new_state True (n_state parked4_2) parked4_2 = Inr 0xFFFFFFF90000FFFF \<and>
   Notify_signal True (n_state parked4_2) (parked4_2\<lparr>n_state := 0xFFFFFFF90000FFFF\<rparr>)
     = signal_loop 1 (Some 1) (parked4_2\<lparr>n_state := 0xFFFFFFF90000FFFF\<rparr>) [] \<and>
   signal_loop 1 (Some 1) (parked4_2\<lparr>n_state := 0xFFFFFFF90000FFFF\<rparr>) [] = None \<and>
   Notify True parked4_2 = None"
proof -
  have s: "stack_head (n_state parked4_2) = Some 1" "1 < length (n_waiters parked4_2)"
    "w_next (n_waiters parked4_2 ! 1) = Some 0" "0 < length (n_waiters parked4_2)"
    by (simp_all add: parked4_2_def stack_head_def layout_values)
  have n: "Notify_new_state True (n_state parked4_2) parked4_2 = Inr 0xFFFFFFF90000FFFF"
    by (simp add: Notify_new_state_def parked4_2_def layout_values)
  have g: "Notify_signal True (n_state parked4_2) (parked4_2\<lparr>n_state := 0xFFFFFFF90000FFFF\<rparr>)
     = signal_loop 1 (Some 1) (parked4_2\<lparr>n_state := 0xFFFFFFF90000FFFF\<rparr>) []"
    by (simp add: Notify_signal_def parked4_2_def layout_values)
  have l: "signal_loop 1 (Some 1) (parked4_2\<lparr>n_state := 0xFFFFFFF90000FFFF\<rparr>) [] = None"
    by (rule signal_loop_diverges[where j = 0]) (simp_all add: parked4_2_def)
  show ?thesis
    by (intro conjI park_all_two n g l Notify_true_diverges[OF s])
qed

text \<open>
  C8, at a schedule where the code departs from it. Capacity 4; thread A parks on slot 0,
  then two more threads park on slots 1 and 2, then thread B calls \<open>Notify(true)\<close>. The
  compare-and-swap empties the stack in the state word, and after any number of
  iterations of the signalling loop the loop is still running, slot 0 is still waiting
  and the stack is still empty: A is never signalled and no later call can find it.
\<close>

theorem parked_waiter_never_woken:
  "park_all [0, 1, 2] idle4 = Some parked4_3 \<and>
   w_state (n_waiters parked4_3 ! 0) = kWaiting \<and>
   Notify_new_state True (n_state parked4_3) parked4_3 = Inr 0xFFFFFFFA0000FFFF \<and>
   Notify_signal True (n_state parked4_3) (parked4_3\<lparr>n_state := 0xFFFFFFFA0000FFFF\<rparr>)
     = signal_loop 2 (Some 2) (parked4_3\<lparr>n_state := 0xFFFFFFFA0000FFFF\<rparr>) [] \<and>
   (\<forall>k. case signal_run k 2 (Some 2, parked4_3\<lparr>n_state := 0xFFFFFFFA0000FFFF\<rparr>, []) of
          (iter, n, lg) \<Rightarrow>
            iter \<noteq> None \<and> w_state (n_waiters n ! 0) = kWaiting \<and>
            stack_head (n_state n) = None) \<and>
   Notify True parked4_3 = None"
proof -
  let ?n = "parked4_3\<lparr>n_state := 0xFFFFFFFA0000FFFF\<rparr>"
  have s: "stack_head (n_state parked4_3) = Some 2" "2 < length (n_waiters parked4_3)"
    "w_next (n_waiters parked4_3 ! 2) = Some 1" "1 < length (n_waiters parked4_3)"
    by (simp_all add: parked4_3_def stack_head_def layout_values)
  have w: "w_state (n_waiters parked4_3 ! 0) = kWaiting" by (simp add: parked4_3_def)
  have n: "Notify_new_state True (n_state parked4_3) parked4_3 = Inr 0xFFFFFFFA0000FFFF"
    by (simp add: Notify_new_state_def parked4_3_def layout_values)
  have g: "Notify_signal True (n_state parked4_3) ?n = signal_loop 2 (Some 2) ?n []"
    by (simp add: Notify_signal_def parked4_3_def layout_values)
  have a: "2 < length (n_waiters ?n)" "w_next (n_waiters ?n ! 2) = Some 1"
    "(0::nat) \<noteq> 2" "(0::nat) \<noteq> 1"
    by (simp_all add: parked4_3_def)
  have b: "w_state (n_waiters ?n ! 0) = kWaiting" "stack_head (n_state ?n) = None"
    by (simp_all add: parked4_3_def stack_head_def layout_values)
  have r: "\<forall>k. case signal_run k 2 (Some 2, ?n, []) of
          (iter, n, lg) \<Rightarrow>
            iter \<noteq> None \<and> w_state (n_waiters n ! 0) = kWaiting \<and>
            stack_head (n_state n) = None"
  proof
    fix k
    from signal_run_stuck[OF a, of k "[]"] b
    show "case signal_run k 2 (Some 2, ?n, []) of
          (iter, n, lg) \<Rightarrow>
            iter \<noteq> None \<and> w_state (n_waiters n ! 0) = kWaiting \<and>
            stack_head (n_state n) = None"
      by (auto split: prod.splits)
  qed
  show ?thesis
    by (intro conjI park_all_three w n g r Notify_true_diverges[OF s])
qed

end
